theory Spec2Isabelle
  imports Main "HOL-Library.Monad_Syntax"
begin

section \<open>The level state\<close>

text \<open>
  The level state of \<^verbatim>\<open>main.py\<close> is a list of rows, each row a list of one-character
  strings. Rows and columns are Python integers. Every function that can raise
  (\<^verbatim>\<open>IndexError\<close> on a subscript, \<^verbatim>\<open>TypeError\<close> on unpacking \<^verbatim>\<open>None\<close>) returns an
  option here, \<open>None\<close> standing for the exception. Functions that mutate the state in
  place return the new state.
\<close>

type_synonym grid = "char list list"

datatype status = Victory | Invalid | Unfinished | Defeated

text \<open>The exit codes \<^verbatim>\<open>_victory\<close>, \<^verbatim>\<open>_invalid\<close>, \<^verbatim>\<open>_unfinished\<close>, \<^verbatim>\<open>_defeated\<close>.\<close>

fun exit_code :: "status \<Rightarrow> int" where
  "exit_code Victory = 0"
| "exit_code Invalid = 1"
| "exit_code Unfinished = 2"
| "exit_code Defeated = 3"

definition valid_chars :: string where
  "valid_chars = ''G@YFMm_. xoWwv^<>|+-''"

definition find_pos :: "grid \<Rightarrow> char \<Rightarrow> (int \<times> int) list" where
  "find_pos s x = [(int i, int j). (i, l) \<leftarrow> enumerate 0 s, (j, c) \<leftarrow> enumerate 0 l, c = x]"

text \<open>
  \<open>inside s i j\<close>: row \<open>i\<close>, column \<open>j\<close> is a tile of the state. A subscript past the
  end raises \<^verbatim>\<open>IndexError\<close> in Python; a negative subscript would silently wrap around
  to the other edge. Both are accesses outside the grid and both are \<open>None\<close> in
  \<open>at_pos\<close> and \<open>set_at_pos\<close>.
\<close>

definition inside :: "grid \<Rightarrow> int \<Rightarrow> int \<Rightarrow> bool" where
  "inside s i j \<longleftrightarrow> 0 \<le> i \<and> i < int (length s) \<and> 0 \<le> j \<and> j < int (length (s ! nat i))"

definition at_pos :: "grid \<Rightarrow> int \<Rightarrow> int \<Rightarrow> char option" where
  "at_pos s i j = (if inside s i j then Some (s ! nat i ! nat j) else None)"

definition set_at_pos :: "grid \<Rightarrow> int \<Rightarrow> int \<Rightarrow> char \<Rightarrow> grid option" where
  "set_at_pos s i j c =
     (if inside s i j then Some (s[nat i := (s ! nat i)[nat j := c]]) else None)"

definition bounds :: "grid \<Rightarrow> (int \<times> int) option" where
  "bounds s = (case s of [] \<Rightarrow> None | l # _ \<Rightarrow> Some (int (length s), int (length l)))"

definition next_pos :: "int \<Rightarrow> int \<Rightarrow> char \<Rightarrow> (int \<times> int) option" where
  "next_pos row col dir =
     (if dir = CHR ''h'' then Some (row, col - 1)
      else if dir = CHR ''l'' then Some (row, col + 1)
      else if dir = CHR ''k'' then Some (row - 1, col)
      else if dir = CHR ''j'' then Some (row + 1, col)
      else None)"

definition in_bounds :: "int \<Rightarrow> int \<Rightarrow> int \<Rightarrow> int \<Rightarrow> bool" where
  "in_bounds height width row col \<longleftrightarrow> row \<ge> 0 \<and> col \<ge> 0 \<and> row < height \<and> col < width"

section \<open>Validation\<close>

text \<open>
  \<^verbatim>\<open>eprint\<close> writes a line to standard error unless the global \<^verbatim>\<open>quiet\<close> is set. The
  model of \<^verbatim>\<open>validate_state\<close> records its calls of \<^verbatim>\<open>eprint\<close>, in order, one
  constructor for each format string with the formatted values as arguments.
\<close>

datatype message =
    LineLength nat nat nat   \<comment> \<open>\<^verbatim>\<open>len(line {i}) = {l} != len(line 0) = {length}\<close>\<close>
  | SameLengthHint           \<comment> \<open>\<^verbatim>\<open>all lines must have the same length\<close>\<close>
  | InvalidChar char nat nat \<comment> \<open>\<^verbatim>\<open>invalid char {c} at row {i} col {j}\<close>\<close>
  | ValidCharsHint           \<comment> \<open>\<^verbatim>\<open>all chars must be in {str(_valid_chars)}\<close>\<close>
  | NoFinish                 \<comment> \<open>\<^verbatim>\<open>found no F in file\<close>\<close>
  | FinishHint               \<comment> \<open>\<^verbatim>\<open>file must contain at least 1\<close>\<close>
  | GoatCount nat            \<comment> \<open>\<^verbatim>\<open>file contains {goat_count} of [G, @, Y]\<close>\<close>
  | GoatHint                 \<comment> \<open>\<^verbatim>\<open>file must contain exactly one of these\<close>\<close>

record scan =
  invalid :: bool
  goat_count :: nat
  victory :: bool
  defeated :: bool
  finish_count :: nat
  log :: "message list"

definition scan_init :: scan where
  "scan_init = \<lparr>invalid = False, goat_count = 0, victory = False, defeated = False,
                 finish_count = 0, log = []\<rparr>"

text \<open>The body of the two nested loops of \<^verbatim>\<open>validate_state\<close>.\<close>

definition scan_char :: "nat \<Rightarrow> nat \<Rightarrow> char \<Rightarrow> scan \<Rightarrow> scan" where
  "scan_char i j c st =
     (let st1 = (if c \<notin> set valid_chars
                 then st\<lparr>invalid := True, log := log st @ [InvalidChar c i j, ValidCharsHint]\<rparr>
                 else st)
      in if c \<in> set ''G'' then st1\<lparr>goat_count := goat_count st1 + 1\<rparr>
         else if c \<in> set ''Y'' then st1\<lparr>goat_count := goat_count st1 + 1, defeated := True\<rparr>
         else if c \<in> set ''@'' then st1\<lparr>goat_count := goat_count st1 + 1, victory := True\<rparr>
         else if c \<in> set ''F'' then st1\<lparr>finish_count := finish_count st1 + 1\<rparr>
         else st1)"

definition scan_row :: "nat \<Rightarrow> string \<Rightarrow> scan \<Rightarrow> scan" where
  "scan_row i l st = fold (\<lambda>(j, c). scan_char i j c) (enumerate 0 l) st"

definition scan_grid :: "grid \<Rightarrow> scan \<Rightarrow> scan" where
  "scan_grid s st = fold (\<lambda>(i, l). scan_row i l) (enumerate 0 s) st"

definition validate_state :: "grid \<Rightarrow> (message list \<times> status) option" where
  "validate_state s =
     (case s of
        [] \<Rightarrow> None
      | l0 # _ \<Rightarrow>
          (let len = length l0;
               n = map_option (\<lambda>(i, l). (i, length l))
                     (find (\<lambda>(i, l). length l \<noteq> len) (enumerate 0 s))
           in case n of
                Some (i, l) \<Rightarrow> Some ([LineLength i l len, SameLengthHint], Invalid)
              | None \<Rightarrow>
                  (let st = scan_grid s scan_init
                   in if invalid st then Some (log st, Invalid)
                      else if finish_count st = 0
                        then Some (log st @ [NoFinish, FinishHint], Invalid)
                      else if goat_count st \<noteq> 1
                        then Some (log st @ [GoatCount (goat_count st), GoatHint], Invalid)
                      else if victory st then Some (log st, Victory)
                      else if defeated st then Some (log st, Defeated)
                      else Some (log st, Unfinished))))"

text \<open>\<^verbatim>\<open>determine_new_state\<close> walks the tiles in row-major order.\<close>

fun first_ram :: "string \<Rightarrow> status" where
  "first_ram [] = Unfinished"
| "first_ram (c # cs) =
     (if c \<in> set ''Y'' then Defeated
      else if c \<in> set ''@'' then Victory
      else first_ram cs)"

definition determine_new_state :: "grid \<Rightarrow> status" where
  "determine_new_state s = first_ram (concat s)"

section \<open>Lasers\<close>

declare Option.bind_cong [fundef_cong]

text \<open>The inner loop of the two loops that clear the beams: one tile after the other.\<close>

fun set_all :: "grid \<Rightarrow> (int \<times> int) list \<Rightarrow> char \<Rightarrow> grid option" where
  "set_all s [] c = Some s"
| "set_all s ((row, col) # ps) c =
     do { s' \<leftarrow> set_at_pos s row col c; set_all s' ps c }"

definition clear_beams :: "grid \<Rightarrow> grid option" where
  "clear_beams s =
     do { s1 \<leftarrow> set_all s (find_pos s CHR ''|'') CHR '' '';
          s2 \<leftarrow> set_all s1 (find_pos s1 CHR ''-'') CHR '' '';
          set_all s2 (find_pos s2 CHR ''+'') CHR '' '' }"

definition collect_lasers :: "grid \<Rightarrow> (int \<times> int \<times> char) list" where
  "collect_lasers s =
     map (\<lambda>(laser_row, laser_col). (laser_row, laser_col, CHR ''h'')) (find_pos s CHR ''<'')
   @ map (\<lambda>(laser_row, laser_col). (laser_row, laser_col, CHR ''l'')) (find_pos s CHR ''>'')
   @ map (\<lambda>(laser_row, laser_col). (laser_row, laser_col, CHR ''k'')) (find_pos s CHR ''^'')
   @ map (\<lambda>(laser_row, laser_col). (laser_row, laser_col, CHR ''j'')) (find_pos s CHR ''v'')"

text \<open>
  The distance left to the edge of the level in direction \<open>dir\<close>: every loop below
  steps with \<open>next_pos\<close> and goes on only from a position that is \<open>in_bounds\<close>.
\<close>

definition toward :: "int \<Rightarrow> int \<Rightarrow> char \<Rightarrow> int \<Rightarrow> int \<Rightarrow> nat" where
  "toward height width dir row col =
     (if dir = CHR ''h'' then nat (col + 1)
      else if dir = CHR ''l'' then nat (width - col)
      else if dir = CHR ''k'' then nat (row + 1)
      else nat (height - row))"

text \<open>
  The \<^verbatim>\<open>while True\<close> loop that traces one beam, entered with the position the beam
  reaches next.
\<close>

function trace_beam :: "grid \<Rightarrow> int \<Rightarrow> int \<Rightarrow> char \<Rightarrow> int \<Rightarrow> int \<Rightarrow> grid option" where
  "trace_beam s height width dir next_row next_col =
     (if \<not> in_bounds height width next_row next_col then Some s
      else case at_pos s next_row next_col of
        None \<Rightarrow> None
      | Some c \<Rightarrow>
          if c \<in> set ''-'' \<and> dir \<in> set ''jk'' then
            do { s1 \<leftarrow> set_at_pos s next_row next_col CHR ''+'';
                 (r, c') \<leftarrow> next_pos next_row next_col dir;
                 trace_beam s1 height width dir r c' }
          else if c \<in> set ''|'' \<and> dir \<in> set ''hl'' then
            do { s1 \<leftarrow> set_at_pos s next_row next_col CHR ''+'';
                 (r, c') \<leftarrow> next_pos next_row next_col dir;
                 trace_beam s1 height width dir r c' }
          else if c = CHR ''G'' then set_at_pos s next_row next_col CHR ''Y''
          else if c \<in> set ''FmMwWY<>^v'' then Some s
          else
            do { s1 \<leftarrow> (if dir \<in> set ''hl'' then set_at_pos s next_row next_col CHR ''-''
                        else if dir \<in> set ''jk'' then set_at_pos s next_row next_col CHR ''|''
                        else Some s);
                 (r, c') \<leftarrow> next_pos next_row next_col dir;
                 trace_beam s1 height width dir r c' })"
  by pat_completeness auto

termination trace_beam
  by (relation "measure (\<lambda>(s, height, width, dir, row, col). toward height width dir row col)")
     (auto simp: in_bounds_def next_pos_def toward_def split: if_splits)

fun trace_lasers :: "grid \<Rightarrow> int \<Rightarrow> int \<Rightarrow> (int \<times> int \<times> char) list \<Rightarrow> grid option" where
  "trace_lasers s height width [] = Some s"
| "trace_lasers s height width ((laser_row, laser_col, dir) # lasers) =
     do { (next_row, next_col) \<leftarrow> next_pos laser_row laser_col dir;
          s' \<leftarrow> trace_beam s height width dir next_row next_col;
          trace_lasers s' height width lasers }"

definition update_lasers :: "grid \<Rightarrow> grid option" where
  "update_lasers s =
     do { s0 \<leftarrow> clear_beams s;
          (height, width) \<leftarrow> bounds s0;
          trace_lasers s0 height width (collect_lasers s0) }"

section \<open>Movement\<close>

text \<open>
  The inner \<^verbatim>\<open>while True\<close> loop of the branch for \<^verbatim>\<open>w\<close>: \<open>row\<close>, \<open>col\<close> is the
  position of the weight.
\<close>

function slide_weight :: "grid \<Rightarrow> int \<Rightarrow> int \<Rightarrow> char \<Rightarrow> int \<Rightarrow> int \<Rightarrow> grid option" where
  "slide_weight s height width dir row col =
     (case next_pos row col dir of
        None \<Rightarrow> None
      | Some (next_row, next_col) \<Rightarrow>
          if \<not> in_bounds height width next_row next_col then Some s
          else case at_pos s next_row next_col of
            None \<Rightarrow> None
          | Some nc \<Rightarrow>
              if nc \<in> set '' _.x|-+'' then
                do { s1 \<leftarrow> set_at_pos s row col CHR '' '';
                     s2 \<leftarrow> set_at_pos s1 next_row next_col CHR ''w'';
                     slide_weight s2 height width dir next_row next_col }
              else if nc \<in> set ''o'' then
                do { s1 \<leftarrow> set_at_pos s row col CHR '' '';
                     set_at_pos s1 next_row next_col CHR ''_'' }
              else Some s)"
  by pat_completeness auto
termination slide_weight
  by (relation "measure (\<lambda>(s, height, width, dir, row, col). toward height width dir row col)")
     (auto simp: in_bounds_def next_pos_def toward_def split: if_splits)

text \<open>The branch for \<^verbatim>\<open>W\<close>; \<open>next_row\<close>, \<open>next_col\<close> is the position of the weight.\<close>

definition push_heavy ::
  "grid \<Rightarrow> int \<Rightarrow> int \<Rightarrow> char \<Rightarrow> int \<Rightarrow> int \<Rightarrow> int \<Rightarrow> int \<Rightarrow> (grid \<times> status) option" where
  "push_heavy s height width dir row col next_row next_col =
     do { (over_row, over_col) \<leftarrow> next_pos next_row next_col dir;
          if \<not> in_bounds height width over_row over_col then Some (s, Unfinished)
          else
            do { nc \<leftarrow> at_pos s over_row over_col;
                 s' \<leftarrow>
                   (if nc \<in> set '' _.x|-+'' then
                      do { s1 \<leftarrow> set_at_pos s over_row over_col CHR ''W'';
                           s2 \<leftarrow> set_at_pos s1 next_row next_col CHR ''G'';
                           set_at_pos s2 row col CHR ''.'' }
                    else if nc \<in> set ''o'' then
                      do { s1 \<leftarrow> set_at_pos s over_row over_col CHR ''_'';
                           s2 \<leftarrow> set_at_pos s1 next_row next_col CHR ''G'';
                           set_at_pos s2 row col CHR ''.'' }
                    else Some s);
                 Some (s', determine_new_state s') } }"

text \<open>
  The outer \<^verbatim>\<open>while True\<close> loop of \<^verbatim>\<open>move\<close>: \<open>row\<close>, \<open>col\<close> is the position of the
  ram. The call of \<^verbatim>\<open>determine_new_state\<close> that ends the loop body has no effect and
  its result is dropped; the line that the last branch prints is not recorded.
\<close>

function move_loop :: "grid \<Rightarrow> int \<Rightarrow> int \<Rightarrow> char \<Rightarrow> int \<Rightarrow> int \<Rightarrow> (grid \<times> status) option" where
  "move_loop s height width dir row col =
     (case next_pos row col dir of
        None \<Rightarrow> None
      | Some (next_row, next_col) \<Rightarrow>
          if \<not> in_bounds height width next_row next_col then Some (s, Unfinished)
          else case at_pos s next_row next_col of
            None \<Rightarrow> None
          | Some c \<Rightarrow>
              if c \<in> set '' _.'' then
                do { s1 \<leftarrow> set_at_pos s next_row next_col CHR ''G'';
                     s2 \<leftarrow> set_at_pos s1 row col CHR ''.'';
                     move_loop s2 height width dir next_row next_col }
              else if c \<in> set ''M'' then
                do { s1 \<leftarrow> set_at_pos s next_row next_col CHR ''m''; Some (s1, Unfinished) }
              else if c \<in> set ''m'' then
                do { s1 \<leftarrow> set_at_pos s next_row next_col CHR ''_''; Some (s1, Unfinished) }
              else if c \<in> set ''v^<>'' then
                do { s1 \<leftarrow> set_at_pos s next_row next_col CHR ''_''; Some (s1, Unfinished) }
              else if c \<in> set ''F'' then
                do { s1 \<leftarrow> set_at_pos s row col CHR ''@''; Some (s1, Victory) }
              else if c \<in> set ''x|-'' then
                do { s1 \<leftarrow> set_at_pos s row col CHR ''Y''; Some (s1, Defeated) }
              else if c \<in> set ''o'' then
                do { s1 \<leftarrow> set_at_pos s next_row next_col CHR ''G'';
                     s2 \<leftarrow> set_at_pos s1 row col CHR ''.'';
                     Some (s2, Unfinished) }
              else if c \<in> set ''W'' then
                push_heavy s height width dir row col next_row next_col
              else if c \<in> set ''w'' then
                do { s1 \<leftarrow> slide_weight s height width dir next_row next_col;
                     Some (s1, Unfinished) }
              else Some (s, Invalid))"
  by pat_completeness auto
termination move_loop
  by (relation "measure (\<lambda>(s, height, width, dir, row, col). toward height width dir row col)")
     (auto simp: in_bounds_def next_pos_def toward_def split: if_splits)

definition move :: "grid \<Rightarrow> char \<Rightarrow> (grid \<times> status) option" where
  "move s dir =
     do { (height, width) \<leftarrow> bounds s;
          case find_pos s CHR ''G'' of
            [] \<Rightarrow>
              if find_pos s CHR ''@'' \<noteq> [] then Some (s, Victory)
              else if find_pos s CHR ''Y'' \<noteq> [] then Some (s, Defeated)
              else Some (s, Invalid)
          | (row, col) # _ \<Rightarrow> move_loop s height width dir row col }"

text \<open>
  The non-interactive loop of the main program over the instruction string: white space
  is skipped, any other symbol outside \<^verbatim>\<open>hjkl\<close> exits with \<^verbatim>\<open>_invalid\<close>, and the loop
  ends at the first status that is not \<^verbatim>\<open>_unfinished\<close>. \<open>e_code\<close> is the status so far.
\<close>

fun run_instr :: "grid \<Rightarrow> status \<Rightarrow> string \<Rightarrow> (grid \<times> status) option" where
  "run_instr s e_code [] = Some (s, e_code)"
| "run_instr s e_code (dir # instr) =
     (if dir \<in> set [CHR '' '', CHR 0x09, CHR 0x0A] then run_instr s e_code instr
      else if dir \<notin> set ''hjkl'' then Some (s, Invalid)
      else do { (s', e_code') \<leftarrow> move s dir;
                if e_code' \<noteq> Unfinished then Some (s', e_code')
                else run_instr s' e_code' instr })"

section \<open>Notions used in the statements\<close>

text \<open>The number of tiles of the state whose symbol is one of \<open>cs\<close>.\<close>

definition count_tiles :: "grid \<Rightarrow> string \<Rightarrow> nat" where
  "count_tiles s cs = length (filter (\<lambda>c. c \<in> set cs) (concat s))"

text \<open>The number of ram tiles: \<^verbatim>\<open>G\<close>, \<^verbatim>\<open>@\<close> and \<^verbatim>\<open>Y\<close>.\<close>

definition ram_count :: "grid \<Rightarrow> nat" where
  "ram_count s = count_tiles s ''G@Y''"

text \<open>Every row is as long as the first one.\<close>

definition rectangular :: "grid \<Rightarrow> bool" where
  "rectangular s \<longleftrightarrow> (\<forall>l \<in> set s. length l = length (hd s))"

text \<open>Every symbol of the state is one of \<^verbatim>\<open>_valid_chars\<close>.\<close>

definition all_valid :: "grid \<Rightarrow> bool" where
  "all_valid s \<longleftrightarrow> (\<forall>c \<in> set (concat s). c \<in> set valid_chars)"

text \<open>
  The state after the assignment \<^verbatim>\<open>s[i][j] = c\<close> at a position inside the grid, where
  \<open>set_at_pos\<close> succeeds.
\<close>

definition upd :: "grid \<Rightarrow> int \<Rightarrow> int \<Rightarrow> char \<Rightarrow> grid" where
  "upd s i j c = s[nat i := (s ! nat i)[nat j := c]]"

text \<open>
  Where the tiles with symbol \<open>t\<close> are, as a grid of truth values, and the positions
  that such a grid marks: \<open>find_pos s t\<close> depends on the state through this only.
\<close>

definition tile_mask :: "char \<Rightarrow> grid \<Rightarrow> bool list list" where
  "tile_mask t s = map (map (\<lambda>c. c = t)) s"

definition true_pos :: "bool list list \<Rightarrow> (int \<times> int) list" where
  "true_pos m = [(int i, int j). (i, l) \<leftarrow> enumerate 0 m, (j, b) \<leftarrow> enumerate 0 l, b]"

text \<open>
  The position \<open>n\<close> steps from \<open>row\<close>, \<open>col\<close> in direction \<open>dir\<close> (\<open>n\<close> applications of
  \<open>next_pos\<close>), and the tile of a state at a position given as a pair.
\<close>

definition ahead :: "char \<Rightarrow> int \<Rightarrow> int \<Rightarrow> nat \<Rightarrow> int \<times> int" where
  "ahead dir row col n =
     (if dir = CHR ''h'' then (row, col - int n)
      else if dir = CHR ''l'' then (row, col + int n)
      else if dir = CHR ''k'' then (row - int n, col)
      else (row + int n, col))"

definition tile_at :: "grid \<Rightarrow> int \<times> int \<Rightarrow> char option" where
  "tile_at s p = at_pos s (fst p) (snd p)"

text \<open>
  What a slide of the weight that starts at \<open>row\<close>, \<open>col\<close> does to a state \<open>s\<close>, in the
  words of the rule for the sliding weight: the \<open>k\<close> tiles ahead of the weight are free
  (floor, rubble, trail, trap or beam) and the tile after them is not. The weight goes
  over the \<open>k\<close> tiles and every tile it leaves becomes floor. When the tile after them
  is a hole, the weight's last tile becomes floor too and the hole becomes rubble;
  otherwise the weight rests on the last free tile and the tile after it is as it was.
  No other tile changes.
\<close>

definition slid :: "grid \<Rightarrow> grid \<Rightarrow> char \<Rightarrow> int \<Rightarrow> int \<Rightarrow> nat \<Rightarrow> bool" where
  "slid s s' dir row col k \<longleftrightarrow>
     (\<forall>i. 1 \<le> i \<and> i \<le> k \<longrightarrow>
        (\<exists>x. tile_at s (ahead dir row col i) = Some x \<and> x \<in> set '' _.x|-+''))
   \<and> \<not> (\<exists>x. tile_at s (ahead dir row col (Suc k)) = Some x \<and> x \<in> set '' _.x|-+'')
   \<and> (\<forall>i < k. tile_at s' (ahead dir row col i) = Some CHR '' '')
   \<and> (if tile_at s (ahead dir row col (Suc k)) = Some CHR ''o''
        then tile_at s' (ahead dir row col k) = Some CHR '' ''
           \<and> tile_at s' (ahead dir row col (Suc k)) = Some CHR ''_''
        else tile_at s' (ahead dir row col k) = Some CHR ''w''
           \<and> tile_at s' (ahead dir row col (Suc k)) = tile_at s (ahead dir row col (Suc k)))
   \<and> (\<forall>p. (\<forall>i \<le> Suc k. p \<noteq> ahead dir row col i) \<longrightarrow> tile_at s' p = tile_at s p)"

text \<open>The state after the branch for \<^verbatim>\<open>W\<close> when all three positions are inside the grid.\<close>

definition pushed :: "grid \<Rightarrow> int \<Rightarrow> int \<Rightarrow> int \<Rightarrow> int \<Rightarrow> int \<Rightarrow> int \<Rightarrow> char \<Rightarrow> grid" where
  "pushed s row col nr nc r2 c2 x =
     (if x \<in> set '' _.x|-+'' then upd (upd (upd s r2 c2 CHR ''W'') nr nc CHR ''G'') row col CHR ''.''
      else if x \<in> set ''o'' then upd (upd (upd s r2 c2 CHR ''_'') nr nc CHR ''G'') row col CHR ''.''
      else s)"

declare trace_beam.simps [simp del] slide_weight.simps [simp del] move_loop.simps [simp del]

section \<open>Scenarios\<close>

text \<open>
  Claim C2 (entering a beam tile defeats the ram, a crossing included), at the failing
  input: with the crossing \<^verbatim>\<open>+\<close> ahead of the ram, \<^verbatim>\<open>move\<close> reaches its last branch,
  leaves the state as it is and answers \<^verbatim>\<open>_invalid\<close>; with \<^verbatim>\<open>-\<close> or \<^verbatim>\<open>|\<close> ahead the ram
  is defeated.
\<close>

theorem move_into_beam_cross:
  "move [''G+F''] CHR ''l'' = Some ([''G+F''], Invalid)
   \<and> move [''G-F''] CHR ''l'' = Some ([''Y-F''], Defeated)
   \<and> move [''G|F''] CHR ''l'' = Some ([''Y|F''], Defeated)"
  by code_simp

text \<open>
  Claim C3 (exactly one ram tile before, exactly one after), at the failing input: a
  victorious ram \<^verbatim>\<open>@\<close> in the path of a beam is not among the tiles that stop the trace,
  so \<^verbatim>\<open>update_lasers\<close> overwrites it with a beam tile and no ram tile is left.
\<close>

theorem update_lasers_erases_victorious_ram:
  "ram_count [''>@F''] = 1
   \<and> update_lasers [''>@F''] = Some [''>-F'']
   \<and> ram_count [''>-F''] = 0"
  by code_simp

text \<open>
  Claim C4 (the beams do not depend on the order of the emitters), at the failing input:
  two emitters face each other in the second row and a third one points down at the tile
  between them. In the order in which \<^verbatim>\<open>update_lasers\<close> collects them the tile ends as a
  crossing; with the vertical emitter second, the last horizontal trace finds \<^verbatim>\<open>+\<close>,
  which no branch for crossings covers, and overwrites it with \<^verbatim>\<open>-\<close>. The last conjunct
  is the same defect in the order of the source: a second vertical trace turns a
  crossing into \<^verbatim>\<open>|\<close>.
\<close>

theorem trace_lasers_order_matters:
  "collect_lasers ['' v '', ''> <''] = [(1, 2, CHR ''h''), (1, 0, CHR ''l''), (0, 1, CHR ''j'')]
   \<and> trace_lasers ['' v '', ''> <''] 2 3 [(1, 2, CHR ''h''), (1, 0, CHR ''l''), (0, 1, CHR ''j'')]
       = Some ['' v '', ''>+<'']
   \<and> trace_lasers ['' v '', ''> <''] 2 3 [(1, 2, CHR ''h''), (0, 1, CHR ''j''), (1, 0, CHR ''l'')]
       = Some ['' v '', ''>-<'']
   \<and> update_lasers ['' v '', ''> F'', '' ^ ''] = Some ['' v '', ''>|F'', '' ^ '']"
  by code_simp

text \<open>
  Claim C6 as stated: the run of \<^verbatim>\<open>llll\<close> on \<^verbatim>\<open>G   F\<close> would end with the ram on the
  last tile. It does not.
\<close>

theorem run_to_finish_counterexample:
  "run_instr [''G   F''] Unfinished ''llll'' \<noteq> Some ([''....@''], Victory)"
  by code_simp

text \<open>
  Claim C6, amended: on the level \<^verbatim>\<open>G   F\<close> (and on \<^verbatim>\<open>G...F\<close>) the run of \<^verbatim>\<open>llll\<close> ends
  with status \<^verbatim>\<open>_victory\<close> and the state \<^verbatim>\<open>...@F\<close>: the ram stops on the tile before the
  finish flag, which stays. The first move already gets there, and a further move
  changes nothing.
\<close>

theorem run_to_finish:
  "run_instr [''G   F''] Unfinished ''llll'' = Some ([''...@F''], Victory)
   \<and> run_instr [''G...F''] Unfinished ''llll'' = Some ([''...@F''], Victory)
   \<and> move [''G   F''] CHR ''l'' = Some ([''...@F''], Victory)
   \<and> move [''...@F''] CHR ''l'' = Some ([''...@F''], Victory)"
  by code_simp

text \<open>
  Claim C7 as stated: with the emitter \<^verbatim>\<open><\<close> at the left end of the row and the ram at
  the right end, \<^verbatim>\<open>update_lasers\<close> would put beams between them and defeat the ram. The
  beam of \<^verbatim>\<open><\<close> runs to the left, away from the ram, and the state stays as it is.
\<close>

theorem emitter_left_of_ram_counterexample:
  "update_lasers [''<   G''] = Some [''<   G'']
   \<and> update_lasers [''<   G''] \<noteq> Some [''<---Y'']"
  by code_simp

text \<open>
  Claim C7, amended: with the ram in the path of the beam, that is \<^verbatim>\<open>G   <\<close> for the
  emitter that points left or \<^verbatim>\<open>>   G\<close> for the one that points right, one call of
  \<^verbatim>\<open>update_lasers\<close> puts \<^verbatim>\<open>-\<close> on every tile between the two and turns the ram into \<^verbatim>\<open>Y\<close>.
\<close>

theorem emitter_facing_ram:
  "update_lasers [''G   <''] = Some [''Y---<'']
   \<and> update_lasers [''>   G''] = Some [''>---Y'']
   \<and> update_lasers [''G...<''] = Some [''Y---<'']"
  by code_simp

section \<open>Reading and writing tiles\<close>

text \<open>
  A write inside the grid keeps the length of every row, changes the tile it writes to
  and no other, and leaves the positions of a symbol alone when it neither overwrites
  nor writes that symbol.
\<close>

lemma set_at_pos_SomeD:
  "set_at_pos s i j c = Some s' \<Longrightarrow> inside s i j \<and> s' = s[nat i := (s ! nat i)[nat j := c]]"
  by (auto simp: set_at_pos_def split: if_splits)

lemma inside_lengths: "map length s' = map length s \<Longrightarrow> inside s' i j = inside s i j"
proof -
  assume a: "map length s' = map length s"
  then have l: "length s' = length s" by (metis length_map)
  have "\<And>k. k < length s \<Longrightarrow> length (s' ! k) = length (s ! k)"
    using a l by (metis nth_map)
  then show ?thesis using l by (auto simp: inside_def)
qed

lemma at_pos_set_at_pos:
  "set_at_pos s i j c = Some s' \<Longrightarrow>
   at_pos s' r k = (if r = i \<and> k = j then Some c else at_pos s r k)"
  by (auto simp: set_at_pos_def at_pos_def inside_def nth_list_update split: if_splits)

lemma mask_set_at_pos:
  assumes "set_at_pos s i j c = Some s'" "at_pos s i j \<noteq> Some t" "c \<noteq> t"
  shows "tile_mask t s' = tile_mask t s"
proof -
  let ?i = "nat i" and ?j = "nat j"
  from assms(1) have ins: "inside s i j" and s': "s' = s[?i := (s ! ?i)[?j := c]]"
    by (auto dest: set_at_pos_SomeD)
  from ins have i: "?i < length s" and j: "?j < length (s ! ?i)"
    by (auto simp: inside_def)
  from assms(2) ins have old: "s ! ?i ! ?j \<noteq> t" by (simp add: at_pos_def)
  have "map (\<lambda>c. c = t) ((s ! ?i)[?j := c]) = map (\<lambda>c. c = t) (s ! ?i)"
    using j old assms(3) by (simp add: map_update list_update_same_conv)
  then show ?thesis
    using i by (simp add: tile_mask_def s' map_update list_update_same_conv)
qed

lemma row_mask:
  "concat (map (\<lambda>(j, c). if c = x then [f j] else []) (enumerate n l))
   = concat (map (\<lambda>(j, b). if b then [f j] else []) (enumerate n (map (\<lambda>c. c = x) l)))"
  by (induction l arbitrary: n) auto

lemma find_pos_mask_gen:
  "concat (map (\<lambda>(i, l). concat (map (\<lambda>(j, c). if c = x then [(int i, int j)] else []) (enumerate 0 l))) (enumerate n s))
   = concat (map (\<lambda>(i, l). concat (map (\<lambda>(j, b). if b then [(int i, int j)] else []) (enumerate 0 l))) (enumerate n (tile_mask x s)))"
  by (induction s arbitrary: n) (auto simp: tile_mask_def row_mask)

lemma find_pos_mask: "find_pos s x = true_pos (tile_mask x s)"
  unfolding find_pos_def true_pos_def using find_pos_mask_gen[of x 0 s] by simp

lemma count_tiles_mask: "count_tiles s [t] = length (filter (\<lambda>b. b) (concat (tile_mask t s)))"
  by (simp add: count_tiles_def tile_mask_def map_concat[symmetric] filter_map comp_def del: map_concat)

lemma set_find_pos:
  "set (find_pos s x) = {(int i, int j) | i j. i < length s \<and> j < length (s ! i) \<and> s ! i ! j = x}"
proof -
  have "\<And>i j. i < length s \<Longrightarrow> j < length (s ! i) \<Longrightarrow>
      \<exists>p\<in>set (enumerate 0 s). \<exists>l. (i, l) = p \<and> j < length l \<and> l ! j = s ! i ! j"
    by (rule_tac x = "(i, s ! i)" in bexI) (auto simp: in_set_enumerate_eq)
  then show ?thesis
    by (auto simp: find_pos_def in_set_enumerate_eq)
qed

lemma in_find_pos: "(i, j) \<in> set (find_pos s x) \<longleftrightarrow> at_pos s i j = Some x"
proof
  assume "(i, j) \<in> set (find_pos s x)"
  then show "at_pos s i j = Some x"
    by (auto simp: set_find_pos at_pos_def inside_def)
next
  assume a: "at_pos s i j = Some x"
  then have "inside s i j" and "s ! nat i ! nat j = x"
    by (auto simp: at_pos_def split: if_splits)
  then have "nat i < length s \<and> nat j < length (s ! nat i) \<and> s ! nat i ! nat j = x
      \<and> i = int (nat i) \<and> j = int (nat j)"
    by (auto simp: inside_def)
  then show "(i, j) \<in> set (find_pos s x)"
    unfolding set_find_pos by blast
qed

lemma set_at_pos_upd: "at_pos s i j = Some x \<Longrightarrow> set_at_pos s i j c = Some (upd s i j c)"
  by (simp add: at_pos_def set_at_pos_def upd_def split: if_splits)

lemma set_at_pos_upd_inside: "inside s i j \<Longrightarrow> set_at_pos s i j c = Some (upd s i j c)"
  by (simp add: set_at_pos_def upd_def)

lemma lengths_upd: "map length (upd s i j c) = map length s"
proof (cases "nat i < length s")
  case True
  then show ?thesis by (simp add: upd_def map_update list_update_same_conv)
next
  case False
  then show ?thesis by (simp add: upd_def list_update_beyond)
qed

lemma inside_upd: "inside (upd s i j c) r k = inside s r k"
  by (rule inside_lengths) (rule lengths_upd)

lemma at_pos_upd:
  "inside s i j \<Longrightarrow> at_pos (upd s i j c) r k = (if r = i \<and> k = j then Some c else at_pos s r k)"
  using at_pos_set_at_pos[OF set_at_pos_upd_inside, of s i j c r k] by simp

lemma mask_upd:
  assumes "at_pos s i j = Some x" "x \<noteq> t" "c \<noteq> t"
  shows "tile_mask t (upd s i j c) = tile_mask t s"
proof -
  have h: "set_at_pos s i j c = Some (upd s i j c)" using assms(1) by (rule set_at_pos_upd)
  show ?thesis using assms by (intro mask_set_at_pos[OF h]) auto
qed

lemma mask_lengths: "tile_mask t s' = tile_mask t s \<Longrightarrow> map length s' = map length s"
proof -
  assume "tile_mask t s' = tile_mask t s"
  then have "map length (tile_mask t s') = map length (tile_mask t s)" by simp
  then show ?thesis by (simp add: tile_mask_def comp_def)
qed

lemma mask_at_pos: "tile_mask t s' = tile_mask t s \<Longrightarrow> at_pos s' i j = Some t \<longleftrightarrow> at_pos s i j = Some t"
proof -
  assume m: "tile_mask t s' = tile_mask t s"
  then have ins: "inside s' i j = inside s i j" by (intro inside_lengths mask_lengths)
  show ?thesis
  proof (cases "inside s i j")
    case True
    then have i: "nat i < length s" and j: "nat j < length (s ! nat i)" by (auto simp: inside_def)
    from True ins have i': "nat i < length s'" and j': "nat j < length (s' ! nat i)" by (auto simp: inside_def)
    have "tile_mask t s' ! nat i ! nat j = tile_mask t s ! nat i ! nat j" using m by simp
    then have "(s' ! nat i ! nat j = t) = (s ! nat i ! nat j = t)"
      using i j i' j' by (simp add: tile_mask_def)
    then show ?thesis using True ins by (simp add: at_pos_def)
  next
    case False
    then show ?thesis using ins by (simp add: at_pos_def)
  qed
qed

section \<open>The beams\<close>

text \<open>
  Each loop is unfolded one iteration at a time; the properties of a whole run follow by
  induction on the distance to the edge of the level.
\<close>

lemma toward_less:
  "in_bounds h w r c \<Longrightarrow> next_pos r c dir = Some (r', c') \<Longrightarrow> toward h w dir r' c' < toward h w dir r c"
  by (auto simp: in_bounds_def next_pos_def toward_def split: if_splits)

lemma toward_less':
  "in_bounds h w r' c' \<Longrightarrow> next_pos r c dir = Some (r', c') \<Longrightarrow> toward h w dir r' c' < toward h w dir r c"
  by (auto simp: in_bounds_def next_pos_def toward_def split: if_splits)

lemma next_pos_valid: "dir \<in> set ''hjkl'' \<Longrightarrow> \<exists>r' c'. next_pos r c dir = Some (r', c')"
  by (auto simp: next_pos_def)

lemma trace_beam_out: "\<not> in_bounds h w r c \<Longrightarrow> trace_beam s h w dir r c = Some s"
  by (subst trace_beam.simps) simp

lemma trace_beam_none: "in_bounds h w r c \<Longrightarrow> at_pos s r c = None \<Longrightarrow> trace_beam s h w dir r c = None"
  by (subst trace_beam.simps) simp

lemma trace_beam_step:
  assumes "in_bounds h w r c" "at_pos s r c = Some x" "next_pos r c dir = Some (r', c')"
  shows "trace_beam s h w dir r c =
     (if x = CHR ''-'' \<and> dir \<in> set ''jk'' \<or> x = CHR ''|'' \<and> dir \<in> set ''hl''
        then trace_beam (upd s r c CHR ''+'') h w dir r' c'
      else if x = CHR ''G'' then Some (upd s r c CHR ''Y'')
      else if x \<in> set ''FmMwWY<>^v'' then Some s
      else trace_beam (if dir \<in> set ''hl'' then upd s r c CHR ''-''
                       else if dir \<in> set ''jk'' then upd s r c CHR ''|'' else s) h w dir r' c')"
  using assms by (subst trace_beam.simps) (auto simp: set_at_pos_upd)

lemma trace_beam_mask:
  "trace_beam s h w dir r c = Some s' \<Longrightarrow> tile_mask CHR ''F'' s' = tile_mask CHR ''F'' s"
proof (induction "toward h w dir r c" arbitrary: s r c rule: less_induct)
  case less
  show ?case
  proof (cases "in_bounds h w r c")
    case False
    with less.prems show ?thesis by (simp add: trace_beam_out)
  next
    case True
    show ?thesis
    proof (cases "at_pos s r c")
      case None
      with True less.prems show ?thesis by (simp add: trace_beam_none)
    next
      case (Some x)
      show ?thesis
      proof (cases "next_pos r c dir")
        case None
        then have "trace_beam s h w dir r c = Some s' \<Longrightarrow> ?thesis"
          using True Some
          by (subst (asm) trace_beam.simps)
             (auto simp: set_at_pos_upd mask_upd split: if_splits)
        with less.prems show ?thesis by simp
      next
        case (Some p)
        obtain r' c' where p: "next_pos r c dir = Some (r', c')"
          using Some by (cases p) simp
        note IH = less.hyps[OF toward_less[OF True p]]
        from less.prems show ?thesis
          unfolding trace_beam_step[OF True \<open>at_pos s r c = Some x\<close> p]
          using \<open>at_pos s r c = Some x\<close>
          by (auto split: if_splits dest!: IH simp: mask_upd)
      qed
    qed
  qed
qed

lemma inside_rect:
  assumes "map length s = replicate H W"
  shows "inside s r c = in_bounds (int H) (int W) r c"
proof (cases "0 \<le> r \<and> r < int H")
  case True
  have l: "length s = H" using assms by (metis length_map length_replicate)
  have "nat r < H" using True by auto
  moreover have "map length s ! nat r = replicate H W ! nat r" using assms by simp
  ultimately have "length (s ! nat r) = W"
    using l by simp
  then show ?thesis using l True by (simp add: inside_def in_bounds_def)
next
  case False
  have l: "length s = H" using assms by (metis length_map length_replicate)
  show ?thesis using False l by (auto simp: inside_def in_bounds_def)
qed

lemma at_pos_rect:
  "map length s = replicate H W \<Longrightarrow> in_bounds (int H) (int W) r c \<Longrightarrow> \<exists>x. at_pos s r c = Some x"
  using inside_rect[of s H W r c] by (simp add: at_pos_def)

lemma trace_beam_safe:
  "map length s = replicate H W \<Longrightarrow> dir \<in> set ''hjkl'' \<Longrightarrow>
   \<exists>s'. trace_beam s (int H) (int W) dir r c = Some s'"
proof (induction "toward (int H) (int W) dir r c" arbitrary: s r c rule: less_induct)
  case less
  show ?case
  proof (cases "in_bounds (int H) (int W) r c")
    case False
    then show ?thesis by (simp add: trace_beam_out)
  next
    case True
    obtain x where x: "at_pos s r c = Some x"
      using at_pos_rect[OF less.prems(1) True] by blast
    obtain r' c' where p: "next_pos r c dir = Some (r', c')"
      using next_pos_valid[OF less.prems(2)] by blast
    have IH: "\<exists>s'. trace_beam s1 (int H) (int W) dir r' c' = Some s'"
      if "map length s1 = replicate H W" for s1
      using less.hyps[OF toward_less[OF True p] that less.prems(2)] .
    show ?thesis
      unfolding trace_beam_step[OF True x p]
      using less.prems(1) by (simp add: IH lengths_upd)
  qed
qed

lemma trace_lasers_Cons:
  "next_pos lr lc dir = Some (nr, nc) \<Longrightarrow> trace_beam s h w dir nr nc = Some s1 \<Longrightarrow>
   trace_lasers s h w ((lr, lc, dir) # ls) = trace_lasers s1 h w ls"
  by simp

lemma trace_lasers_ConsD:
  assumes "trace_lasers s h w ((lr, lc, dir) # ls) = Some s'"
  shows "\<exists>nr nc s1. next_pos lr lc dir = Some (nr, nc) \<and> trace_beam s h w dir nr nc = Some s1
     \<and> trace_lasers s1 h w ls = Some s'"
proof (cases "next_pos lr lc dir")
  case None
  with assms show ?thesis by simp
next
  case (Some p)
  obtain nr nc where p: "p = (nr, nc)" by (cases p)
  show ?thesis
  proof (cases "trace_beam s h w dir nr nc")
    case None
    with assms Some p show ?thesis by simp
  next
    case (Some s1)
    with assms \<open>next_pos lr lc dir = Some p\<close> p show ?thesis by simp
  qed
qed

lemma trace_lasers_mask:
  "trace_lasers s h w ls = Some s' \<Longrightarrow> tile_mask CHR ''F'' s' = tile_mask CHR ''F'' s"
proof (induction ls arbitrary: s)
  case Nil
  then show ?case by simp
next
  case (Cons a ls)
  obtain lr lc dir where a: "a = (lr, lc, dir)" by (cases a)
  from Cons.prems obtain nr nc s1 where
    "next_pos lr lc dir = Some (nr, nc)" and t: "trace_beam s h w dir nr nc = Some s1"
    and r: "trace_lasers s1 h w ls = Some s'"
    unfolding a using trace_lasers_ConsD by blast
  from Cons.IH[OF r] trace_beam_mask[OF t] show ?case by simp
qed

lemma trace_lasers_safe:
  "map length s = replicate H W \<Longrightarrow> \<forall>(r, c, d) \<in> set ls. d \<in> set ''hjkl'' \<Longrightarrow>
   \<exists>s'. trace_lasers s (int H) (int W) ls = Some s'"
proof (induction ls arbitrary: s)
  case Nil
  then show ?case by simp
next
  case (Cons a ls)
  obtain lr lc dir where a: "a = (lr, lc, dir)" by (cases a)
  have d: "dir \<in> set ''hjkl''" using Cons.prems(2) by (simp add: a)
  obtain nr nc where p: "next_pos lr lc dir = Some (nr, nc)"
    using next_pos_valid[OF d] by blast
  obtain s1 where t: "trace_beam s (int H) (int W) dir nr nc = Some s1"
    using trace_beam_safe[OF Cons.prems(1) d] by blast
  have "map length s1 = replicate H W"
    using mask_lengths[OF trace_beam_mask[OF t]] Cons.prems(1) by simp
  moreover have "\<forall>(r, c, d) \<in> set ls. d \<in> set ''hjkl''"
    using Cons.prems(2) by simp
  ultimately obtain s' where "trace_lasers s1 (int H) (int W) ls = Some s'"
    using Cons.IH by blast
  then show ?case unfolding a trace_lasers_Cons[OF p t] by blast
qed

lemma collect_lasers_dirs: "\<forall>(r, c, d) \<in> set (collect_lasers s). d \<in> set ''hjkl''"
  by (auto simp: collect_lasers_def)

lemma set_all_mask:
  "set_all s ps ch = Some s' \<Longrightarrow> ch \<noteq> t \<Longrightarrow> \<forall>(r, c) \<in> set ps. at_pos s r c \<noteq> Some t \<Longrightarrow>
   tile_mask t s' = tile_mask t s"
proof (induction ps arbitrary: s)
  case Nil
  then show ?case by simp
next
  case (Cons p ps)
  obtain r c where p: "p = (r, c)" by (cases p)
  from Cons.prems(1) obtain s1 where
    w: "set_at_pos s r c ch = Some s1" and rest: "set_all s1 ps ch = Some s'"
    unfolding p by (cases "set_at_pos s r c ch") simp_all
  have m: "tile_mask t s1 = tile_mask t s"
    using Cons.prems(2,3) by (intro mask_set_at_pos[OF w]) (auto simp: p)
  have "\<forall>(r, c) \<in> set ps. at_pos s1 r c \<noteq> Some t"
    using Cons.prems(3) by (auto simp: mask_at_pos[OF m])
  from Cons.IH[OF rest Cons.prems(2) this] m show ?case by simp
qed

lemma set_all_safe:
  "\<forall>(r, c) \<in> set ps. inside s r c \<Longrightarrow> \<exists>s'. set_all s ps ch = Some s'"
proof (induction ps arbitrary: s)
  case Nil
  then show ?case by simp
next
  case (Cons p ps)
  obtain r c where p: "p = (r, c)" by (cases p)
  have w: "set_at_pos s r c ch = Some (upd s r c ch)"
    using Cons.prems by (simp add: p set_at_pos_upd_inside)
  have "\<forall>(r', c') \<in> set ps. inside (upd s r c ch) r' c'"
    using Cons.prems by (auto simp: inside_upd)
  from Cons.IH[OF this] show ?case using w by (simp add: p)
qed

lemma set_all_find_pos:
  assumes "x \<noteq> CHR ''F''"
  shows "\<exists>s'. set_all s (find_pos s x) CHR '' '' = Some s' \<and> tile_mask CHR ''F'' s' = tile_mask CHR ''F'' s"
proof -
  have "\<forall>(r, c) \<in> set (find_pos s x). inside s r c"
    by (auto simp: in_find_pos at_pos_def split: if_splits)
  then obtain s' where s': "set_all s (find_pos s x) CHR '' '' = Some s'"
    using set_all_safe by blast
  have "\<forall>(r, c) \<in> set (find_pos s x). at_pos s r c \<noteq> Some CHR ''F''"
    using assms by (auto simp: in_find_pos)
  from set_all_mask[OF s' _ this] s' show ?thesis by simp
qed

lemma clear_beams_ok:
  "\<exists>s'. clear_beams s = Some s' \<and> tile_mask CHR ''F'' s' = tile_mask CHR ''F'' s"
proof -
  obtain s1 where 1: "set_all s (find_pos s CHR ''|'') CHR '' '' = Some s1"
      "tile_mask CHR ''F'' s1 = tile_mask CHR ''F'' s"
    using set_all_find_pos[of "CHR ''|''" s] by auto
  obtain s2 where 2: "set_all s1 (find_pos s1 CHR ''-'') CHR '' '' = Some s2"
      "tile_mask CHR ''F'' s2 = tile_mask CHR ''F'' s1"
    using set_all_find_pos[of "CHR ''-''" s1] by auto
  obtain s3 where 3: "set_all s2 (find_pos s2 CHR ''+'') CHR '' '' = Some s3"
      "tile_mask CHR ''F'' s3 = tile_mask CHR ''F'' s2"
    using set_all_find_pos[of "CHR ''+''" s2] by auto
  show ?thesis using 1 2 3 by (simp add: clear_beams_def)
qed

lemma rectangular_lengths:
  "s \<noteq> [] \<Longrightarrow> rectangular s \<Longrightarrow> map length s = replicate (length s) (length (hd s))"
proof (rule nth_equalityI)
  show "length (map length s) = length (replicate (length s) (length (hd s)))" by simp
next
  fix i assume "i < length (map length s)"
  then have i: "i < length s" by simp
  then have "s ! i \<in> set s" by simp
  moreover assume "rectangular s"
  ultimately have "length (s ! i) = length (hd s)" by (simp add: rectangular_def)
  then show "map length s ! i = replicate (length s) (length (hd s)) ! i" using i by simp
qed

lemma bounds_rect:
  "s \<noteq> [] \<Longrightarrow> bounds s = Some (int (length s), int (length (hd s)))"
  by (cases s) (simp_all add: bounds_def)

lemma update_lasers_mask:
  assumes "update_lasers s = Some s'"
  shows "tile_mask CHR ''F'' s' = tile_mask CHR ''F'' s"
proof -
  obtain s0 where c: "clear_beams s = Some s0" "tile_mask CHR ''F'' s0 = tile_mask CHR ''F'' s"
    using clear_beams_ok by blast
  from assms c(1) obtain h w where "trace_lasers s0 h w (collect_lasers s0) = Some s'"
    by (cases "bounds s0") (auto simp: update_lasers_def)
  from trace_lasers_mask[OF this] c(2) show ?thesis by simp
qed

lemma update_lasers_safe:
  assumes "s \<noteq> []" "rectangular s"
  shows "\<exists>s'. update_lasers s = Some s'"
proof -
  obtain s0 where c: "clear_beams s = Some s0" "tile_mask CHR ''F'' s0 = tile_mask CHR ''F'' s"
    using clear_beams_ok by blast
  have l: "map length s0 = map length s" using c(2) by (rule mask_lengths)
  then have ne: "s0 \<noteq> []" using assms(1) by auto
  have hd: "length (hd s0) = length (hd s)"
    using l ne assms(1) by (cases s0; cases s) simp_all
  have len: "length s0 = length s" using l by (metis length_map)
  have r: "map length s0 = replicate (length s) (length (hd s))"
    using l rectangular_lengths[OF assms] by simp
  have b: "bounds s0 = Some (int (length s), int (length (hd s)))"
    using bounds_rect[OF ne] hd len by simp
  obtain s' where "trace_lasers s0 (int (length s)) (int (length (hd s))) (collect_lasers s0) = Some s'"
    using trace_lasers_safe[OF r collect_lasers_dirs] by blast
  then show ?thesis using c(1) b by (simp add: update_lasers_def)
qed

section \<open>The sliding weight\<close>

lemma at_pos_inside: "at_pos s i j = Some x \<Longrightarrow> inside s i j"
  by (simp add: at_pos_def split: if_splits)

lemma mask_upd_inside:
  "inside s i j \<Longrightarrow> at_pos s i j \<noteq> Some t \<Longrightarrow> c \<noteq> t \<Longrightarrow> tile_mask t (upd s i j c) = tile_mask t s"
  using mask_set_at_pos[OF set_at_pos_upd_inside] by blast

lemmas upd_simps = inside_upd at_pos_upd set_at_pos_upd_inside mask_upd_inside

lemma next_pos_neq: "next_pos r c dir = Some (nr, nc) \<Longrightarrow> nr \<noteq> r \<or> nc \<noteq> c"
  by (auto simp: next_pos_def split: if_splits)

lemma slide_weight_none:
  "next_pos row col dir = None \<Longrightarrow> slide_weight s h w dir row col = None"
  by (subst slide_weight.simps) simp

lemma slide_weight_out:
  "next_pos row col dir = Some (nr, nc) \<Longrightarrow> \<not> in_bounds h w nr nc \<Longrightarrow>
   slide_weight s h w dir row col = Some s"
  by (subst slide_weight.simps) simp

lemma slide_weight_unread:
  "next_pos row col dir = Some (nr, nc) \<Longrightarrow> in_bounds h w nr nc \<Longrightarrow> at_pos s nr nc = None \<Longrightarrow>
   slide_weight s h w dir row col = None"
  by (subst slide_weight.simps) simp

lemma slide_weight_step:
  assumes "next_pos row col dir = Some (nr, nc)" "in_bounds h w nr nc"
    "at_pos s nr nc = Some x" "inside s row col"
  shows "slide_weight s h w dir row col =
     (if x \<in> set '' _.x|-+''
        then slide_weight (upd (upd s row col CHR '' '') nr nc CHR ''w'') h w dir nr nc
      else if x \<in> set ''o'' then Some (upd (upd s row col CHR '' '') nr nc CHR ''_'')
      else Some s)"
proof -
  have "inside s nr nc" using assms(3) by (rule at_pos_inside)
  then show ?thesis
    using assms by (subst slide_weight.simps) (simp add: upd_simps)
qed

lemma slide_weight_mask:
  "slide_weight s h w dir row col = Some s' \<Longrightarrow> at_pos s row col = Some CHR ''w'' \<Longrightarrow>
   t \<notin> set '' _.x|-+ow'' \<Longrightarrow> tile_mask t s' = tile_mask t s"
proof (induction "toward h w dir row col" arbitrary: s row col rule: less_induct)
  case less
  have ins: "inside s row col" using less.prems(2) by (rule at_pos_inside)
  show ?case
  proof (cases "next_pos row col dir")
    case None
    with less.prems(1) show ?thesis by (simp add: slide_weight_none)
  next
    case (Some p)
    obtain nr nc where p: "next_pos row col dir = Some (nr, nc)"
      using Some by (cases p) simp
    show ?thesis
    proof (cases "in_bounds h w nr nc")
      case False
      with less.prems(1) p show ?thesis by (simp add: slide_weight_out)
    next
      case True
      show ?thesis
      proof (cases "at_pos s nr nc")
        case None
        with less.prems(1) p True show ?thesis by (simp add: slide_weight_unread)
      next
        case (Some x)
        have insn: "inside s nr nc" using Some by (rule at_pos_inside)
        have ne: "nr \<noteq> row \<or> nc \<noteq> col" using p by (rule next_pos_neq)
        let ?s2 = "upd (upd s row col CHR '' '') nr nc CHR ''w''"
        have IH: "tile_mask t s' = tile_mask t ?s2" if "slide_weight ?s2 h w dir nr nc = Some s'"
          using less.hyps[OF toward_less'[OF True p] that _ less.prems(3)] insn
          by (simp add: upd_simps)
        have m2: "tile_mask t ?s2 = tile_mask t s" if "x \<in> set '' _.x|-+''"
          using that less.prems(2,3) ins insn Some ne by (auto simp: upd_simps)
        have m3: "tile_mask t (upd (upd s row col CHR '' '') nr nc CHR ''_'') = tile_mask t s" if "x = CHR ''o''"
          using that less.prems(2,3) ins insn Some ne by (auto simp: upd_simps)
        from less.prems(1) show ?thesis
          unfolding slide_weight_step[OF p True Some ins]
          using IH m2 m3 by (auto split: if_splits)
      qed
    qed
  qed
qed

lemma slide_weight_safe:
  "map length s = replicate H W \<Longrightarrow> dir \<in> set ''hjkl'' \<Longrightarrow> in_bounds (int H) (int W) row col \<Longrightarrow>
   \<exists>s'. slide_weight s (int H) (int W) dir row col = Some s'"
proof (induction "toward (int H) (int W) dir row col" arbitrary: s row col rule: less_induct)
  case less
  have ins: "inside s row col" using inside_rect[OF less.prems(1)] less.prems(3) by simp
  obtain nr nc where p: "next_pos row col dir = Some (nr, nc)"
    using next_pos_valid[OF less.prems(2)] by blast
  show ?case
  proof (cases "in_bounds (int H) (int W) nr nc")
    case False
    with p show ?thesis by (simp add: slide_weight_out)
  next
    case True
    obtain x where x: "at_pos s nr nc = Some x"
      using at_pos_rect[OF less.prems(1) True] by blast
    have IH: "\<exists>s'. slide_weight s1 (int H) (int W) dir nr nc = Some s'"
      if "map length s1 = replicate H W" for s1
      using less.hyps[OF toward_less'[OF True p] that less.prems(2) True] .
    show ?thesis
      unfolding slide_weight_step[OF p True x ins]
      using less.prems(1) by (simp add: IH lengths_upd)
  qed
qed

section \<open>The heavy weight\<close>

lemma push_heavy_none:
  "next_pos nr nc dir = None \<Longrightarrow> push_heavy s h w dir row col nr nc = None"
  by (simp add: push_heavy_def)

lemma push_heavy_out:
  "next_pos nr nc dir = Some (r2, c2) \<Longrightarrow> \<not> in_bounds h w r2 c2 \<Longrightarrow>
   push_heavy s h w dir row col nr nc = Some (s, Unfinished)"
  by (simp add: push_heavy_def)

lemma push_heavy_unread:
  "next_pos nr nc dir = Some (r2, c2) \<Longrightarrow> in_bounds h w r2 c2 \<Longrightarrow> at_pos s r2 c2 = None \<Longrightarrow>
   push_heavy s h w dir row col nr nc = None"
  by (simp add: push_heavy_def)

lemma push_heavy_step:
  assumes "next_pos nr nc dir = Some (r2, c2)" "in_bounds h w r2 c2" "at_pos s r2 c2 = Some x"
    "inside s nr nc" "inside s row col"
  shows "push_heavy s h w dir row col nr nc =
     Some (pushed s row col nr nc r2 c2 x, determine_new_state (pushed s row col nr nc r2 c2 x))"
proof -
  have "inside s r2 c2" using assms(3) by (rule at_pos_inside)
  then show ?thesis
    using assms by (simp add: push_heavy_def pushed_def upd_simps)
qed

lemma pushed_mask:
  assumes "at_pos s r2 c2 = Some x" "at_pos s nr nc = Some CHR ''W''" "at_pos s row col = Some CHR ''G''"
  shows "tile_mask CHR ''F'' (pushed s row col nr nc r2 c2 x) = tile_mask CHR ''F'' s"
proof -
  have "inside s r2 c2" "inside s nr nc" "inside s row col"
    using assms by (auto intro: at_pos_inside)
  then show ?thesis
    using assms by (auto simp: pushed_def upd_simps)
qed

lemma push_heavy_mask:
  assumes "push_heavy s h w dir row col nr nc = Some (s', st)"
    "at_pos s nr nc = Some CHR ''W''" "at_pos s row col = Some CHR ''G''"
  shows "tile_mask CHR ''F'' s' = tile_mask CHR ''F'' s"
proof (cases "next_pos nr nc dir")
  case None
  with assms(1) show ?thesis by (simp add: push_heavy_none)
next
  case (Some p)
  obtain r2 c2 where p: "next_pos nr nc dir = Some (r2, c2)" using Some by (cases p) simp
  show ?thesis
  proof (cases "in_bounds h w r2 c2")
    case False
    with assms(1) p show ?thesis by (simp add: push_heavy_out)
  next
    case True
    show ?thesis
    proof (cases "at_pos s r2 c2")
      case None
      with assms(1) p True show ?thesis by (simp add: push_heavy_unread)
    next
      case (Some x)
      have "s' = pushed s row col nr nc r2 c2 x"
        using assms(1) push_heavy_step[OF p True Some at_pos_inside[OF assms(2)] at_pos_inside[OF assms(3)]]
        by simp
      then show ?thesis using pushed_mask[OF Some assms(2,3)] by simp
    qed
  qed
qed

lemma push_heavy_safe:
  assumes "map length s = replicate H W" "dir \<in> set ''hjkl''"
    "in_bounds (int H) (int W) row col" "in_bounds (int H) (int W) nr nc"
  shows "\<exists>s' st. push_heavy s (int H) (int W) dir row col nr nc = Some (s', st)"
proof -
  obtain r2 c2 where p: "next_pos nr nc dir = Some (r2, c2)"
    using next_pos_valid[OF assms(2)] by blast
  show ?thesis
  proof (cases "in_bounds (int H) (int W) r2 c2")
    case False
    with p show ?thesis by (simp add: push_heavy_out)
  next
    case True
    obtain x where x: "at_pos s r2 c2 = Some x"
      using at_pos_rect[OF assms(1) True] by blast
    have "inside s nr nc" "inside s row col"
      using inside_rect[OF assms(1)] assms(3,4) by simp_all
    from push_heavy_step[OF p True x this] show ?thesis by blast
  qed
qed

section \<open>The ram\<close>

lemma move_loop_none:
  "next_pos row col dir = None \<Longrightarrow> move_loop s h w dir row col = None"
  by (subst move_loop.simps) simp

lemma move_loop_out:
  "next_pos row col dir = Some (nr, nc) \<Longrightarrow> \<not> in_bounds h w nr nc \<Longrightarrow>
   move_loop s h w dir row col = Some (s, Unfinished)"
  by (subst move_loop.simps) simp

lemma move_loop_unread:
  "next_pos row col dir = Some (nr, nc) \<Longrightarrow> in_bounds h w nr nc \<Longrightarrow> at_pos s nr nc = None \<Longrightarrow>
   move_loop s h w dir row col = None"
  by (subst move_loop.simps) simp

lemma move_loop_step:
  assumes "next_pos row col dir = Some (nr, nc)" "in_bounds h w nr nc"
    "at_pos s nr nc = Some c" "inside s row col"
  shows "move_loop s h w dir row col =
     (if c \<in> set '' _.'' then move_loop (upd (upd s nr nc CHR ''G'') row col CHR ''.'') h w dir nr nc
      else if c \<in> set ''M'' then Some (upd s nr nc CHR ''m'', Unfinished)
      else if c \<in> set ''m'' then Some (upd s nr nc CHR ''_'', Unfinished)
      else if c \<in> set ''v^<>'' then Some (upd s nr nc CHR ''_'', Unfinished)
      else if c \<in> set ''F'' then Some (upd s row col CHR ''@'', Victory)
      else if c \<in> set ''x|-'' then Some (upd s row col CHR ''Y'', Defeated)
      else if c \<in> set ''o'' then Some (upd (upd s nr nc CHR ''G'') row col CHR ''.'', Unfinished)
      else if c \<in> set ''W'' then push_heavy s h w dir row col nr nc
      else if c \<in> set ''w'' then
        (case slide_weight s h w dir nr nc of None \<Rightarrow> None | Some s1 \<Rightarrow> Some (s1, Unfinished))
      else Some (s, Invalid))"
proof -
  have "inside s nr nc" using assms(3) by (rule at_pos_inside)
  then show ?thesis
    using assms
    by (subst move_loop.simps) (simp add: upd_simps split: option.split)
qed

lemma move_loop_floor:
  assumes "next_pos row col dir = Some (nr, nc)" "in_bounds h w nr nc"
    "at_pos s nr nc = Some c" "inside s row col" "c \<in> set '' _.''"
  shows "move_loop s h w dir row col = move_loop (upd (upd s nr nc CHR ''G'') row col CHR ''.'') h w dir nr nc"
  using move_loop_step[OF assms(1-4)] assms(5) by auto

lemma move_loop_wall:
  assumes "next_pos row col dir = Some (nr, nc)" "in_bounds h w nr nc"
    "at_pos s nr nc = Some c" "inside s row col" "c = CHR ''M''"
  shows "move_loop s h w dir row col = Some (upd s nr nc CHR ''m'', Unfinished)"
  using move_loop_step[OF assms(1-4)] assms(5) by auto

lemma move_loop_damaged:
  assumes "next_pos row col dir = Some (nr, nc)" "in_bounds h w nr nc"
    "at_pos s nr nc = Some c" "inside s row col" "c = CHR ''m''"
  shows "move_loop s h w dir row col = Some (upd s nr nc CHR ''_'', Unfinished)"
  using move_loop_step[OF assms(1-4)] assms(5) by auto

lemma move_loop_emitter:
  assumes "next_pos row col dir = Some (nr, nc)" "in_bounds h w nr nc"
    "at_pos s nr nc = Some c" "inside s row col" "c \<in> set ''v^<>''"
  shows "move_loop s h w dir row col = Some (upd s nr nc CHR ''_'', Unfinished)"
  using move_loop_step[OF assms(1-4)] assms(5) by auto

lemma move_loop_finish:
  assumes "next_pos row col dir = Some (nr, nc)" "in_bounds h w nr nc"
    "at_pos s nr nc = Some c" "inside s row col" "c = CHR ''F''"
  shows "move_loop s h w dir row col = Some (upd s row col CHR ''@'', Victory)"
  using move_loop_step[OF assms(1-4)] assms(5) by auto

lemma move_loop_trap:
  assumes "next_pos row col dir = Some (nr, nc)" "in_bounds h w nr nc"
    "at_pos s nr nc = Some c" "inside s row col" "c \<in> set ''x|-''"
  shows "move_loop s h w dir row col = Some (upd s row col CHR ''Y'', Defeated)"
  using move_loop_step[OF assms(1-4)] assms(5) by auto

lemma move_loop_hole:
  assumes "next_pos row col dir = Some (nr, nc)" "in_bounds h w nr nc"
    "at_pos s nr nc = Some c" "inside s row col" "c = CHR ''o''"
  shows "move_loop s h w dir row col = Some (upd (upd s nr nc CHR ''G'') row col CHR ''.'', Unfinished)"
  using move_loop_step[OF assms(1-4)] assms(5) by auto

lemma move_loop_heavy:
  assumes "next_pos row col dir = Some (nr, nc)" "in_bounds h w nr nc"
    "at_pos s nr nc = Some c" "inside s row col" "c = CHR ''W''"
  shows "move_loop s h w dir row col = push_heavy s h w dir row col nr nc"
  using move_loop_step[OF assms(1-4)] assms(5) by auto

lemma move_loop_sliding:
  assumes "next_pos row col dir = Some (nr, nc)" "in_bounds h w nr nc"
    "at_pos s nr nc = Some c" "inside s row col" "c = CHR ''w''"
  shows "move_loop s h w dir row col = (case slide_weight s h w dir nr nc of None \<Rightarrow> None | Some s1 \<Rightarrow> Some (s1, Unfinished))"
  using move_loop_step[OF assms(1-4)] assms(5) by auto

lemma move_loop_other:
  assumes "next_pos row col dir = Some (nr, nc)" "in_bounds h w nr nc"
    "at_pos s nr nc = Some c" "inside s row col" "c \<notin> set '' _.Mmv^<>Fx|-oWw''"
  shows "move_loop s h w dir row col = Some (s, Invalid)"
  using move_loop_step[OF assms(1-4)] assms(5) by auto

lemma tile_cases:
  obtains (floor) "c \<in> set '' _.''" | (wall) "c = CHR ''M''" | (damaged) "c = CHR ''m''"
  | (emitter) "c \<in> set ''v^<>''" | (finish) "c = CHR ''F''" | (trap) "c \<in> set ''x|-''"
  | (hole) "c = CHR ''o''" | (heavy) "c = CHR ''W''" | (sliding) "c = CHR ''w''"
  | (other) "c \<notin> set '' _.Mmv^<>Fx|-oWw''"
  by auto

lemma move_loop_mask:
  "move_loop s h w dir row col = Some (s', st) \<Longrightarrow> at_pos s row col = Some CHR ''G'' \<Longrightarrow>
   tile_mask CHR ''F'' s' = tile_mask CHR ''F'' s"
proof (induction "toward h w dir row col" arbitrary: s row col rule: less_induct)
  case less
  have ins: "inside s row col" using less.prems(2) by (rule at_pos_inside)
  show ?case
  proof (cases "next_pos row col dir")
    case None
    with less.prems(1) show ?thesis by (simp add: move_loop_none)
  next
    case (Some p)
    obtain nr nc where p: "next_pos row col dir = Some (nr, nc)"
      using Some by (cases p) simp
    show ?thesis
    proof (cases "in_bounds h w nr nc")
      case False
      with less.prems(1) p show ?thesis by (simp add: move_loop_out)
    next
      case True
      show ?thesis
      proof (cases "at_pos s nr nc")
        case None
        with less.prems(1) p True show ?thesis by (simp add: move_loop_unread)
      next
        case (Some c)
        note br = p True Some ins
        have insn: "inside s nr nc" using Some by (rule at_pos_inside)
        have ne: "nr \<noteq> row \<or> nc \<noteq> col" using p by (rule next_pos_neq)
        let ?s2 = "upd (upd s nr nc CHR ''G'') row col CHR ''.''"
        have g2: "at_pos ?s2 nr nc = Some CHR ''G''"
          using ins insn ne by (auto simp: upd_simps)
        have m2: "tile_mask CHR ''F'' ?s2 = tile_mask CHR ''F'' s" if "c \<noteq> CHR ''F''"
          using that less.prems(2) ins insn Some ne by (auto simp: upd_simps)
        have m1: "tile_mask CHR ''F'' (upd s nr nc y) = tile_mask CHR ''F'' s"
          if "c \<noteq> CHR ''F''" "y \<noteq> CHR ''F''" for y
          using that insn Some by (simp add: upd_simps)
        have m0: "tile_mask CHR ''F'' (upd s row col y) = tile_mask CHR ''F'' s"
          if "y \<noteq> CHR ''F''" for y
          using that ins less.prems(2) by (simp add: upd_simps)
        show ?thesis
        proof (cases c rule: tile_cases)
          case floor
          then have "move_loop ?s2 h w dir nr nc = Some (s', st)"
            using less.prems(1) move_loop_floor[OF br] by simp
          from less.hyps[OF toward_less'[OF True p] this g2] m2 floor
          show ?thesis by auto
        next
          case wall
          with less.prems(1) move_loop_wall[OF br] m1 show ?thesis by auto
        next
          case damaged
          with less.prems(1) move_loop_damaged[OF br] m1 show ?thesis by auto
        next
          case emitter
          then have "s' = upd s nr nc CHR ''_''"
            using less.prems(1) move_loop_emitter[OF br] by simp
          moreover have "c \<noteq> CHR ''F''" using emitter by auto
          ultimately show ?thesis using m1 by simp
        next
          case finish
          with less.prems(1) move_loop_finish[OF br] m0 show ?thesis by auto
        next
          case trap
          then have "s' = upd s row col CHR ''Y''"
            using less.prems(1) move_loop_trap[OF br] by simp
          then show ?thesis using m0 by simp
        next
          case hole
          with less.prems(1) move_loop_hole[OF br] m2 show ?thesis by auto
        next
          case heavy
          then have "push_heavy s h w dir row col nr nc = Some (s', st)"
            using less.prems(1) move_loop_heavy[OF br] by simp
          from push_heavy_mask[OF this _ less.prems(2)] Some heavy show ?thesis by simp
        next
          case sliding
          then have "slide_weight s h w dir nr nc = Some s'"
            using less.prems(1) move_loop_sliding[OF br]
            by (cases "slide_weight s h w dir nr nc") simp_all
          from slide_weight_mask[OF this, of "CHR ''F''"] Some sliding show ?thesis by simp
        next
          case other
          with less.prems(1) move_loop_other[OF br] show ?thesis by simp
        qed
      qed
    qed
  qed
qed

lemma move_loop_safe:
  "map length s = replicate H W \<Longrightarrow> dir \<in> set ''hjkl'' \<Longrightarrow> in_bounds (int H) (int W) row col \<Longrightarrow>
   \<exists>s' st. move_loop s (int H) (int W) dir row col = Some (s', st)"
proof (induction "toward (int H) (int W) dir row col" arbitrary: s row col rule: less_induct)
  case less
  have ins: "inside s row col" using inside_rect[OF less.prems(1)] less.prems(3) by simp
  obtain nr nc where p: "next_pos row col dir = Some (nr, nc)"
    using next_pos_valid[OF less.prems(2)] by blast
  show ?case
  proof (cases "in_bounds (int H) (int W) nr nc")
    case False
    with p show ?thesis by (simp add: move_loop_out)
  next
    case True
    obtain c where c: "at_pos s nr nc = Some c"
      using at_pos_rect[OF less.prems(1) True] by blast
    note br = p True c ins
    show ?thesis
    proof (cases c rule: tile_cases)
      case floor
      have "map length (upd (upd s nr nc CHR ''G'') row col CHR ''.'') = replicate H W"
        using less.prems(1) by (simp add: lengths_upd)
      from less.hyps[OF toward_less'[OF True p] this less.prems(2) True]
      show ?thesis unfolding move_loop_floor[OF br floor] .
    next
      case wall
      show ?thesis unfolding move_loop_wall[OF br wall] by blast
    next
      case damaged
      show ?thesis unfolding move_loop_damaged[OF br damaged] by blast
    next
      case emitter
      show ?thesis unfolding move_loop_emitter[OF br emitter] by blast
    next
      case finish
      show ?thesis unfolding move_loop_finish[OF br finish] by blast
    next
      case trap
      show ?thesis unfolding move_loop_trap[OF br trap] by blast
    next
      case hole
      show ?thesis unfolding move_loop_hole[OF br hole] by blast
    next
      case heavy
      show ?thesis unfolding move_loop_heavy[OF br heavy]
        using push_heavy_safe[OF less.prems(1,2,3) True] .
    next
      case sliding
      obtain s1 where "slide_weight s (int H) (int W) dir nr nc = Some s1"
        using slide_weight_safe[OF less.prems(1,2) True] by blast
      then show ?thesis unfolding move_loop_sliding[OF br sliding] by simp
    next
      case other
      show ?thesis unfolding move_loop_other[OF br other] by blast
    qed
  qed
qed

lemma move_empty: "move [] dir = None"
  by (simp add: move_def bounds_def)

lemma move_no_ram:
  "s \<noteq> [] \<Longrightarrow> find_pos s CHR ''G'' = [] \<Longrightarrow> \<exists>st. move s dir = Some (s, st)"
  by (simp add: move_def bounds_rect)

lemma move_ram:
  "s \<noteq> [] \<Longrightarrow> find_pos s CHR ''G'' = (row, col) # ps \<Longrightarrow>
   move s dir = move_loop s (int (length s)) (int (length (hd s))) dir row col"
  by (simp add: move_def bounds_rect)

lemma find_pos_hd: "find_pos s x = (row, col) # ps \<Longrightarrow> at_pos s row col = Some x"
  using in_find_pos[of row col s x] by simp

lemma move_mask:
  assumes "move s dir = Some (s', st)"
  shows "tile_mask CHR ''F'' s' = tile_mask CHR ''F'' s"
proof (cases "s = []")
  case True
  with assms show ?thesis by (simp add: move_empty)
next
  case False
  show ?thesis
  proof (cases "find_pos s CHR ''G''")
    case Nil
    with assms move_no_ram[OF False Nil, of dir] show ?thesis by auto
  next
    case (Cons p ps)
    obtain row col where p: "p = (row, col)" by (cases p)
    from Cons p have f: "find_pos s CHR ''G'' = (row, col) # ps" by simp
    from assms show ?thesis
      unfolding move_ram[OF False f] using find_pos_hd[OF f] by (rule move_loop_mask)
  qed
qed

lemma move_safe:
  assumes "s \<noteq> []" "rectangular s" "dir \<in> set ''hjkl''"
  shows "\<exists>s' st. move s dir = Some (s', st)"
proof (cases "find_pos s CHR ''G''")
  case Nil
  with move_no_ram[OF assms(1) Nil, of dir] show ?thesis by blast
next
  case (Cons p ps)
  obtain row col where p: "p = (row, col)" by (cases p)
  from Cons p have f: "find_pos s CHR ''G'' = (row, col) # ps" by simp
  note r = rectangular_lengths[OF assms(1,2)]
  have "inside s row col" using find_pos_hd[OF f] by (rule at_pos_inside)
  then have "in_bounds (int (length s)) (int (length (hd s))) row col"
    using inside_rect[OF r] by simp
  from move_loop_safe[OF r assms(3) this] show ?thesis
    unfolding move_ram[OF assms(1) f] .
qed

lemma mask_finish:
  assumes "tile_mask CHR ''F'' s' = tile_mask CHR ''F'' s"
  shows "find_pos s' CHR ''F'' = find_pos s CHR ''F''
     \<and> count_tiles s' ''F'' = count_tiles s ''F''
     \<and> (\<forall>i j. (at_pos s' i j = Some CHR ''F'') = (at_pos s i j = Some CHR ''F''))"
proof -
  have "find_pos s' CHR ''F'' = find_pos s CHR ''F''"
    by (simp add: find_pos_mask assms)
  moreover have "count_tiles s' ''F'' = count_tiles s ''F''"
    by (simp add: count_tiles_mask assms)
  moreover have "\<forall>i j. (at_pos s' i j = Some CHR ''F'') = (at_pos s i j = Some CHR ''F'')"
    using mask_at_pos[OF assms] by blast
  ultimately show ?thesis by blast
qed

lemma none_outside:
  assumes "s \<noteq> []" "rectangular s"
  shows "(at_pos s i j = None) = (\<not> in_bounds (int (length s)) (int (length (hd s))) i j)"
    and "(set_at_pos s i j c = None) = (\<not> in_bounds (int (length s)) (int (length (hd s))) i j)"
  using inside_rect[OF rectangular_lengths[OF assms], of i j]
  by (simp_all add: at_pos_def set_at_pos_def)

section \<open>Frame and safety\<close>

text \<open>
  Claim C9: neither \<^verbatim>\<open>move\<close> nor \<^verbatim>\<open>update_lasers\<close> changes a finish flag. Whenever one
  of them returns, on any state and for any direction symbol, \<^verbatim>\<open>find_pos(s, "F")\<close> gives
  the same positions before and after, so the number of finish flags is the same and a
  tile holds \<^verbatim>\<open>F\<close> after the call exactly when it did before.
\<close>

theorem finish_tiles_unchanged:
  assumes "move s dir = Some (s', st) \<or> update_lasers s = Some s'"
  shows "find_pos s' CHR ''F'' = find_pos s CHR ''F''
     \<and> count_tiles s' ''F'' = count_tiles s ''F''
     \<and> (\<forall>i j. (at_pos s' i j = Some CHR ''F'') = (at_pos s i j = Some CHR ''F''))"
proof -
  from assms have "tile_mask CHR ''F'' s' = tile_mask CHR ''F'' s"
    using move_mask update_lasers_mask by blast
  then show ?thesis by (rule mask_finish)
qed

theorem finish_tiles_unchanged_witness:
  "move [''G F'', ''>  ''] CHR ''l'' = Some ([''.@F'', ''>  ''], Victory)
   \<and> find_pos [''.@F'', ''>  ''] CHR ''F'' = find_pos [''G F'', ''>  ''] CHR ''F''
   \<and> count_tiles [''.@F'', ''>  ''] ''F'' = count_tiles [''G F'', ''>  ''] ''F''"
proof -
  have h: "move [''G F'', ''>  ''] CHR ''l'' = Some ([''.@F'', ''>  ''], Victory)"
    by code_simp
  from finish_tiles_unchanged[OF disjI1[OF h]] h show ?thesis by blast
qed

text \<open>
  Claim C10: on a state with at least one row whose rows all have the length of the
  first, \<^verbatim>\<open>bounds\<close> gives the height and the width, a read or a write fails exactly at
  the positions that \<^verbatim>\<open>in_bounds\<close> rejects, and \<^verbatim>\<open>move\<close> with one of the directions
  \<^verbatim>\<open>h\<close>, \<^verbatim>\<open>j\<close>, \<^verbatim>\<open>k\<close>, \<^verbatim>\<open>l\<close> and \<^verbatim>\<open>update_lasers\<close> both return: none of their reads and
  writes is outside the grid. For any other symbol \<^verbatim>\<open>next_pos\<close> gives no position.
\<close>

theorem accesses_in_bounds:
  assumes "s \<noteq> []" "rectangular s"
  shows "bounds s = Some (int (length s), int (length (hd s)))
     \<and> (\<forall>i j c. (at_pos s i j = None) = (\<not> in_bounds (int (length s)) (int (length (hd s))) i j)
           \<and> (set_at_pos s i j c = None) = (\<not> in_bounds (int (length s)) (int (length (hd s))) i j))
     \<and> (dir \<in> set ''hjkl'' \<longrightarrow> (\<exists>s' st. move s dir = Some (s', st)))
     \<and> (\<exists>s'. update_lasers s = Some s')
     \<and> (dir \<notin> set ''hjkl'' \<longrightarrow> next_pos row col dir = None)"
proof -
  have "dir \<notin> set ''hjkl'' \<longrightarrow> next_pos row col dir = None"
    by (simp add: next_pos_def)
  then show ?thesis
    using bounds_rect[OF assms(1)] none_outside[OF assms] move_safe[OF assms]
      update_lasers_safe[OF assms]
    by simp
qed

theorem accesses_in_bounds_witness:
  "[''G w F'', ''>   <''] \<noteq> [] \<and> rectangular [''G w F'', ''>   <'']
   \<and> (\<exists>s' st. move [''G w F'', ''>   <''] CHR ''l'' = Some (s', st))
   \<and> (\<exists>s'. update_lasers [''G w F'', ''>   <''] = Some s')
   \<and> next_pos 0 0 CHR ''q'' = None"
proof -
  have a: "[''G w F'', ''>   <''] \<noteq> []" by simp
  have b: "rectangular [''G w F'', ''>   <'']" by (simp add: rectangular_def)
  from accesses_in_bounds[OF a b, of "CHR ''l''" 0 0]
    accesses_in_bounds[OF a b, of "CHR ''q''" 0 0] a b
  show ?thesis by simp
qed

section \<open>What stops a beam\<close>

text \<open>
  Claim C5 as stated: a beam that reaches a sliding weight \<^verbatim>\<open>w\<close> would mark the tile and
  go on. The symbol is in the list of obstacles of \<^verbatim>\<open>update_lasers\<close>: the trace ends
  there and neither the weight nor the tile behind it is marked.
\<close>

theorem sliding_weight_blocks_counterexample:
  "trace_beam [''>w ''] 1 3 CHR ''l'' 0 1 = Some [''>w '']
   \<and> update_lasers [''>w ''] = Some [''>w '']
   \<and> update_lasers [''>w ''] \<noteq> Some [''>--'']"
  by code_simp

text \<open>
  Claim C5, amended: a trace that reaches a tile inside the level ends there, with the
  state as it is, when the tile is one of \<^verbatim>\<open>F\<close>, \<^verbatim>\<open>m\<close>, \<^verbatim>\<open>M\<close>, \<^verbatim>\<open>w\<close>, \<^verbatim>\<open>W\<close>, \<^verbatim>\<open>Y\<close> or an
  emitter, the sliding weight included; it ends with the tile turned into \<^verbatim>\<open>Y\<close> when
  the tile is the ram \<^verbatim>\<open>G\<close>; for any other tile it writes a beam symbol there and goes
  on from the next position.
\<close>

theorem trace_beam_tile:
  assumes "in_bounds h w r c" "at_pos s r c = Some x" "dir \<in> set ''hjkl''"
  shows "(x \<in> set ''FmMwWY<>^v'' \<longrightarrow> trace_beam s h w dir r c = Some s)
     \<and> (x = CHR ''G'' \<longrightarrow> trace_beam s h w dir r c = set_at_pos s r c CHR ''Y'')
     \<and> (x \<notin> set ''GFmMwWY<>^v'' \<longrightarrow>
          (\<exists>m s1 r' c'. m \<in> set ''-|+'' \<and> set_at_pos s r c m = Some s1
             \<and> next_pos r c dir = Some (r', c')
             \<and> trace_beam s h w dir r c = trace_beam s1 h w dir r' c'))"
proof -
  obtain r' c' where p: "next_pos r c dir = Some (r', c')"
    using next_pos_valid[OF assms(3)] by blast
  note st = trace_beam_step[OF assms(1,2) p]
  note w = set_at_pos_upd[OF assms(2)]
  have 1: "x \<in> set ''FmMwWY<>^v'' \<longrightarrow> trace_beam s h w dir r c = Some s"
    unfolding st by auto
  have 2: "x = CHR ''G'' \<longrightarrow> trace_beam s h w dir r c = set_at_pos s r c CHR ''Y''"
    unfolding st w by auto
  have 3: "\<exists>m s1 r' c'. m \<in> set ''-|+'' \<and> set_at_pos s r c m = Some s1
             \<and> next_pos r c dir = Some (r', c')
             \<and> trace_beam s h w dir r c = trace_beam s1 h w dir r' c'"
    if x: "x \<notin> set ''GFmMwWY<>^v''"
  proof -
    let ?m = "if x = CHR ''-'' \<and> dir \<in> set ''jk'' \<or> x = CHR ''|'' \<and> dir \<in> set ''hl''
              then CHR ''+'' else if dir \<in> set ''hl'' then CHR ''-'' else CHR ''|''"
    have "trace_beam s h w dir r c = trace_beam (upd s r c ?m) h w dir r' c'"
      unfolding st using x assms(3) by auto
    moreover have "?m \<in> set ''-|+''" by auto
    ultimately show ?thesis using p w[of ?m] by blast
  qed
  from 1 2 3 show ?thesis by blast
qed

theorem trace_beam_tile_witness:
  "in_bounds 1 3 0 1 \<and> at_pos [''>w ''] 0 1 = Some CHR ''w''
   \<and> trace_beam [''>w ''] 1 3 CHR ''l'' 0 1 = Some [''>w '']"
proof -
  have a: "in_bounds 1 3 0 1" by (simp add: in_bounds_def)
  have b: "at_pos [''>w ''] 0 1 = Some CHR ''w''" by (simp add: at_pos_def inside_def)
  have c: "CHR ''l'' \<in> set ''hjkl''" by simp
  from trace_beam_tile[OF a b c] a b show ?thesis by simp
qed

section \<open>Pushing a sliding weight\<close>

lemma ahead_0: "ahead dir row col 0 = (row, col)"
  by (simp add: ahead_def)

lemma ahead_1: "next_pos row col dir = Some (nr, nc) \<Longrightarrow> ahead dir row col (Suc 0) = (nr, nc)"
  by (auto simp: ahead_def next_pos_def split: if_splits)

lemma ahead_next:
  "next_pos row col dir = Some (nr, nc) \<Longrightarrow> ahead dir nr nc n = ahead dir row col (Suc n)"
  by (auto simp: ahead_def next_pos_def split: if_splits)

lemma ahead_inj: "(ahead dir row col i = ahead dir row col j) = (i = j)"
  by (auto simp: ahead_def)

lemma tile_at_upd:
  "inside s i j \<Longrightarrow> tile_at (upd s i j c) p = (if p = (i, j) then Some c else tile_at s p)"
  by (cases p) (simp add: tile_at_def at_pos_upd)

lemma tile_at_pair: "tile_at s (r, c) = at_pos s r c"
  by (simp add: tile_at_def)

lemma slid_stay:
  assumes "at_pos s row col = Some CHR ''w''" "next_pos row col dir = Some (nr, nc)"
    "at_pos s nr nc = None \<or> (\<exists>x. at_pos s nr nc = Some x \<and> x \<notin> set '' _.x|-+o'')"
  shows "slid s s dir row col 0"
  using assms unfolding slid_def ahead_0 ahead_1[OF assms(2)] tile_at_pair by auto

lemma slid_hole:
  assumes "at_pos s row col = Some CHR ''w''" "next_pos row col dir = Some (nr, nc)"
    "at_pos s nr nc = Some CHR ''o''"
  shows "slid s (upd (upd s row col CHR '' '') nr nc CHR ''_'') dir row col 0"
proof -
  have i0: "inside s row col" and i1: "inside s nr nc"
    using assms(1,3) by (auto intro: at_pos_inside)
  have ne: "(nr, nc) \<noteq> (row, col)" using next_pos_neq[OF assms(2)] by auto
  have t: "tile_at (upd (upd s row col CHR '' '') nr nc CHR ''_'') p =
      (if p = (nr, nc) then Some CHR ''_'' else if p = (row, col) then Some CHR '' '' else tile_at s p)" for p
    using i0 i1 by (simp add: tile_at_upd inside_upd)
  show ?thesis
    unfolding slid_def t ahead_0 ahead_1[OF assms(2)]
    using assms(3) ne by (auto simp: tile_at_pair ahead_0 ahead_1[OF assms(2)])
qed

lemma slid_step:
  assumes w: "at_pos s row col = Some CHR ''w''" and p: "next_pos row col dir = Some (nr, nc)"
    and x: "at_pos s nr nc = Some x" "x \<in> set '' _.x|-+''"
    and IH: "slid (upd (upd s row col CHR '' '') nr nc CHR ''w'') s' dir nr nc k"
  shows "slid s s' dir row col (Suc k)"
proof -
  let ?s2 = "upd (upd s row col CHR '' '') nr nc CHR ''w''"
  let ?A = "ahead dir row col"
  have i0: "inside s row col" and i1: "inside s nr nc"
    using w x(1) by (auto intro: at_pos_inside)
  have A0: "?A 0 = (row, col)" by (rule ahead_0)
  have A1: "?A (Suc 0) = (nr, nc)" using p by (rule ahead_1)
  have t2: "tile_at ?s2 q =
      (if q = ?A (Suc 0) then Some CHR ''w'' else if q = ?A 0 then Some CHR '' '' else tile_at s q)" for q
    using i0 i1 by (simp add: tile_at_upd inside_upd A0 A1)
  have far: "tile_at ?s2 (?A (Suc (Suc i))) = tile_at s (?A (Suc (Suc i)))" for i
    by (simp add: t2 ahead_inj)
  note h = IH[unfolded slid_def ahead_next[OF p]]
  have h1: "\<forall>i. 1 \<le> i \<and> i \<le> k \<longrightarrow>
      (\<exists>x. tile_at ?s2 (?A (Suc i)) = Some x \<and> x \<in> set '' _.x|-+'')"
    using h by blast
  have h2: "\<not> (\<exists>x. tile_at ?s2 (?A (Suc (Suc k))) = Some x \<and> x \<in> set '' _.x|-+'')"
    using h by blast
  have h3: "\<forall>i < k. tile_at s' (?A (Suc i)) = Some CHR '' ''"
    using h by blast
  have h4: "if tile_at ?s2 (?A (Suc (Suc k))) = Some CHR ''o''
        then tile_at s' (?A (Suc k)) = Some CHR '' ''
           \<and> tile_at s' (?A (Suc (Suc k))) = Some CHR ''_''
        else tile_at s' (?A (Suc k)) = Some CHR ''w''
           \<and> tile_at s' (?A (Suc (Suc k))) = tile_at ?s2 (?A (Suc (Suc k)))"
    using h by blast
  have h5: "\<forall>q. (\<forall>i \<le> Suc k. q \<noteq> ?A (Suc i)) \<longrightarrow> tile_at s' q = tile_at ?s2 q"
    using h by blast
  have g1: "\<forall>i. 1 \<le> i \<and> i \<le> Suc k \<longrightarrow>
      (\<exists>x. tile_at s (?A i) = Some x \<and> x \<in> set '' _.x|-+'')"
  proof (intro allI impI)
    fix i assume i: "1 \<le> i \<and> i \<le> Suc k"
    show "\<exists>x. tile_at s (?A i) = Some x \<and> x \<in> set '' _.x|-+''"
    proof (cases "i = Suc 0")
      case True
      then show ?thesis using x by (simp add: A1 tile_at_pair)
    next
      case False
      then obtain j where j: "i = Suc (Suc j)" using i by (cases i; cases "i - 1") auto
      then have "1 \<le> Suc j \<and> Suc j \<le> k" using i by simp
      with h1 have "\<exists>x. tile_at ?s2 (?A (Suc (Suc j))) = Some x \<and> x \<in> set '' _.x|-+''"
        by blast
      then show ?thesis unfolding far j .
    qed
  qed
  have g2: "\<not> (\<exists>x. tile_at s (?A (Suc (Suc k))) = Some x \<and> x \<in> set '' _.x|-+'')"
    using h2 unfolding far .
  have s'0: "tile_at s' (?A 0) = Some CHR '' ''"
  proof -
    have "\<forall>i \<le> Suc k. ?A 0 \<noteq> ?A (Suc i)" by (simp add: ahead_inj)
    with h5 have "tile_at s' (?A 0) = tile_at ?s2 (?A 0)" by blast
    then show ?thesis by (simp add: t2 ahead_inj)
  qed
  have g3: "\<forall>i < Suc k. tile_at s' (?A i) = Some CHR '' ''"
  proof (intro allI impI)
    fix i assume "i < Suc k"
    then show "tile_at s' (?A i) = Some CHR '' ''"
      using s'0 h3 by (cases i) auto
  qed
  have g4: "if tile_at s (?A (Suc (Suc k))) = Some CHR ''o''
        then tile_at s' (?A (Suc k)) = Some CHR '' ''
           \<and> tile_at s' (?A (Suc (Suc k))) = Some CHR ''_''
        else tile_at s' (?A (Suc k)) = Some CHR ''w''
           \<and> tile_at s' (?A (Suc (Suc k))) = tile_at s (?A (Suc (Suc k)))"
    using h4 unfolding far .
  have g5: "\<forall>q. (\<forall>i \<le> Suc (Suc k). q \<noteq> ?A i) \<longrightarrow> tile_at s' q = tile_at s q"
  proof (intro allI impI)
    fix q assume q: "\<forall>i \<le> Suc (Suc k). q \<noteq> ?A i"
    then have "\<forall>i \<le> Suc k. q \<noteq> ?A (Suc i)" by auto
    with h5 have "tile_at s' q = tile_at ?s2 q" by blast
    moreover have "q \<noteq> ?A 0" "q \<noteq> ?A (Suc 0)" using q by auto
    ultimately show "tile_at s' q = tile_at s q" by (simp add: t2)
  qed
  show ?thesis unfolding slid_def using g1 g2 g3 g4 g5 by blast
qed

lemma slide_weight_run:
  "map length s = replicate H W \<Longrightarrow> dir \<in> set ''hjkl'' \<Longrightarrow> at_pos s row col = Some CHR ''w'' \<Longrightarrow>
   \<exists>s' k. slide_weight s (int H) (int W) dir row col = Some s' \<and> slid s s' dir row col k"
proof (induction "toward (int H) (int W) dir row col" arbitrary: s row col rule: less_induct)
  case less
  note w = less.prems(3)
  have ins: "inside s row col" using w by (rule at_pos_inside)
  obtain nr nc where p: "next_pos row col dir = Some (nr, nc)"
    using next_pos_valid[OF less.prems(2)] by blast
  show ?case
  proof (cases "in_bounds (int H) (int W) nr nc")
    case False
    then have "at_pos s nr nc = None"
      using inside_rect[OF less.prems(1), of nr nc] by (simp add: at_pos_def)
    then have "slid s s dir row col 0" using slid_stay[OF w p] by blast
    then show ?thesis using slide_weight_out[OF p False] by blast
  next
    case True
    obtain x where x: "at_pos s nr nc = Some x"
      using at_pos_rect[OF less.prems(1) True] by blast
    note st = slide_weight_step[OF p True x ins]
    consider (free) "x \<in> set '' _.x|-+''" | (hole) "x = CHR ''o''" | (block) "x \<notin> set '' _.x|-+o''"
      by auto
    then show ?thesis
    proof cases
      case free
      let ?s2 = "upd (upd s row col CHR '' '') nr nc CHR ''w''"
      have l2: "map length ?s2 = replicate H W" using less.prems(1) by (simp add: lengths_upd)
      have w2: "at_pos ?s2 nr nc = Some CHR ''w''"
        using at_pos_inside[OF x] by (simp add: at_pos_upd inside_upd)
      from less.hyps[OF toward_less'[OF True p] l2 less.prems(2) w2]
      obtain s' k where r: "slide_weight ?s2 (int H) (int W) dir nr nc = Some s'"
        "slid ?s2 s' dir nr nc k" by blast
      have "slide_weight s (int H) (int W) dir row col = Some s'"
        unfolding st using free r(1) by simp
      moreover have "slid s s' dir row col (Suc k)"
        using slid_step[OF w p x free r(2)] .
      ultimately show ?thesis by blast
    next
      case hole
      have "slide_weight s (int H) (int W) dir row col
          = Some (upd (upd s row col CHR '' '') nr nc CHR ''_'')"
        unfolding st using hole by simp
      moreover have "slid s (upd (upd s row col CHR '' '') nr nc CHR ''_'') dir row col 0"
        using slid_hole[OF w p] x hole by simp
      ultimately show ?thesis by blast
    next
      case block
      have "slide_weight s (int H) (int W) dir row col = Some s"
        unfolding st using block by auto
      moreover have "slid s s dir row col 0"
        using slid_stay[OF w p] x block by blast
      ultimately show ?thesis by blast
    qed
  qed
qed

text \<open>
  Claim C1 as stated: after a push of a sliding weight the ram would stand where the
  weight started. Here the weight starts at column 1 and slides to column 2; the ram is
  still at column 0.
\<close>

theorem sliding_weight_counterexample:
  "find_pos [''Gw F''] CHR ''w'' = [(0, 1)]
   \<and> move [''Gw F''] CHR ''l'' = Some ([''G wF''], Unfinished)
   \<and> find_pos [''G wF''] CHR ''G'' = [(0, 0)]
   \<and> at_pos [''G wF''] 0 1 \<noteq> Some CHR ''G''"
  by code_simp

text \<open>
  Claim C1, amended: on a state with at least one row and rows of equal length, when
  the tile next to the ram in the direction of the move is a sliding weight, \<^verbatim>\<open>move\<close>
  returns \<^verbatim>\<open>_unfinished\<close> and pushes the weight repeatedly in that direction, while
  the ram does not move. With \<open>k\<close> the number of free tiles (floor, rubble, trail, trap
  or beam) right ahead of the weight, the tile after them being the edge of the level,
  an obstacle or a hole: the weight goes over all \<open>k\<close> of them and every tile it leaves
  becomes floor; before a hole the weight's last tile becomes floor as well and the
  hole becomes rubble, otherwise the weight rests on the last free tile and the tile
  after it is unchanged; no tile off this stretch changes. \<^verbatim>\<open>find_pos(s, "G")\<close> is the
  same before and after, the ram's tile still holds \<^verbatim>\<open>G\<close>, and the tile where the
  weight started does not.
\<close>

theorem sliding_weight_ram_stays:
  assumes "s \<noteq> []" "rectangular s" "dir \<in> set ''hjkl''"
    "find_pos s CHR ''G'' = (row, col) # ps"
    "next_pos row col dir = Some (nr, nc)" "at_pos s nr nc = Some CHR ''w''"
  shows "\<exists>s' k. move s dir = Some (s', Unfinished)
     \<and> find_pos s' CHR ''G'' = find_pos s CHR ''G''
     \<and> at_pos s' row col = Some CHR ''G''
     \<and> at_pos s' nr nc \<noteq> Some CHR ''G''
     \<and> (\<forall>i. 1 \<le> i \<and> i \<le> k \<longrightarrow>
          (\<exists>x. tile_at s (ahead dir nr nc i) = Some x \<and> x \<in> set '' _.x|-+''))
     \<and> \<not> (\<exists>x. tile_at s (ahead dir nr nc (Suc k)) = Some x \<and> x \<in> set '' _.x|-+'')
     \<and> (\<forall>i < k. tile_at s' (ahead dir nr nc i) = Some CHR '' '')
     \<and> (if tile_at s (ahead dir nr nc (Suc k)) = Some CHR ''o''
          then tile_at s' (ahead dir nr nc k) = Some CHR '' ''
             \<and> tile_at s' (ahead dir nr nc (Suc k)) = Some CHR ''_''
          else tile_at s' (ahead dir nr nc k) = Some CHR ''w''
             \<and> tile_at s' (ahead dir nr nc (Suc k)) = tile_at s (ahead dir nr nc (Suc k)))
     \<and> (\<forall>p. (\<forall>i \<le> Suc k. p \<noteq> ahead dir nr nc i) \<longrightarrow> tile_at s' p = tile_at s p)"
proof -
  let ?h = "int (length s)" and ?w = "int (length (hd s))"
  note r = rectangular_lengths[OF assms(1,2)]
  have g: "at_pos s row col = Some CHR ''G''" using assms(4) by (rule find_pos_hd)
  have ins: "inside s row col" using g by (rule at_pos_inside)
  have inb: "in_bounds ?h ?w nr nc"
    using at_pos_inside[OF assms(6)] inside_rect[OF r] by simp
  obtain s1 k where sw: "slide_weight s ?h ?w dir nr nc = Some s1"
    and run: "slid s s1 dir nr nc k"
    using slide_weight_run[OF r assms(3,6)] by blast
  have mv: "move s dir = Some (s1, Unfinished)"
    unfolding move_ram[OF assms(1,4)] move_loop_sliding[OF assms(5) inb assms(6) ins refl]
    using sw by simp
  have m: "tile_mask CHR ''G'' s1 = tile_mask CHR ''G'' s"
    using slide_weight_mask[OF sw assms(6), of "CHR ''G''"] by simp
  have "find_pos s1 CHR ''G'' = find_pos s CHR ''G''"
    by (simp add: find_pos_mask m)
  moreover have "at_pos s1 row col = Some CHR ''G''"
    using mask_at_pos[OF m] g by blast
  moreover have "at_pos s1 nr nc \<noteq> Some CHR ''G''"
    using mask_at_pos[OF m, of nr nc] assms(6) by simp
  ultimately show ?thesis using mv run[unfolded slid_def] by blast
qed

theorem sliding_weight_ram_stays_witness:
  "move [''Gw x oF''] CHR ''l'' = Some ([''G    _F''], Unfinished)
   \<and> (\<exists>s' k. (move [''Gw x oF''] CHR ''l'' = Some (s', Unfinished)
     \<and> find_pos s' CHR ''G'' = find_pos [''Gw x oF''] CHR ''G''
     \<and> at_pos s' 0 0 = Some CHR ''G''
     \<and> at_pos s' 0 1 \<noteq> Some CHR ''G''
     \<and> (\<forall>i. 1 \<le> i \<and> i \<le> k \<longrightarrow>
          (\<exists>x. tile_at [''Gw x oF''] (ahead CHR ''l'' 0 1 i) = Some x \<and> x \<in> set '' _.x|-+''))
     \<and> \<not> (\<exists>x. tile_at [''Gw x oF''] (ahead CHR ''l'' 0 1 (Suc k)) = Some x \<and> x \<in> set '' _.x|-+'')
     \<and> (\<forall>i < k. tile_at s' (ahead CHR ''l'' 0 1 i) = Some CHR '' '')
     \<and> (if tile_at [''Gw x oF''] (ahead CHR ''l'' 0 1 (Suc k)) = Some CHR ''o''
          then tile_at s' (ahead CHR ''l'' 0 1 k) = Some CHR '' ''
             \<and> tile_at s' (ahead CHR ''l'' 0 1 (Suc k)) = Some CHR ''_''
          else tile_at s' (ahead CHR ''l'' 0 1 k) = Some CHR ''w''
             \<and> tile_at s' (ahead CHR ''l'' 0 1 (Suc k))
                 = tile_at [''Gw x oF''] (ahead CHR ''l'' 0 1 (Suc k)))
     \<and> (\<forall>p. (\<forall>i \<le> Suc k. p \<noteq> ahead CHR ''l'' 0 1 i) \<longrightarrow>
            tile_at s' p = tile_at [''Gw x oF''] p))
     \<and> k = 3)"
proof -
  let ?g = "[''Gw x oF'']"
  have 1: "?g \<noteq> []" by simp
  have 2: "rectangular ?g" by (simp add: rectangular_def)
  have 3: "CHR ''l'' \<in> set ''hjkl''" by simp
  have 4: "find_pos ?g CHR ''G'' = (0, 0) # []" by code_simp
  have 5: "next_pos 0 0 CHR ''l'' = Some (0, 1)" by (simp add: next_pos_def)
  have 6: "at_pos ?g 0 1 = Some CHR ''w''" by (simp add: at_pos_def inside_def)
  have 7: "move ?g CHR ''l'' = Some ([''G    _F''], Unfinished)" by code_simp
  note T = sliding_weight_ram_stays[OF 1 2 3 4 5 6]
  from T obtain s' k where
    free: "\<forall>i. 1 \<le> i \<and> i \<le> k \<longrightarrow>
          (\<exists>x. tile_at ?g (ahead CHR ''l'' 0 1 i) = Some x \<and> x \<in> set '' _.x|-+'')"
    and stop: "\<not> (\<exists>x. tile_at ?g (ahead CHR ''l'' 0 1 (Suc k)) = Some x \<and> x \<in> set '' _.x|-+'')"
    and rest: "move ?g CHR ''l'' = Some (s', Unfinished)
     \<and> find_pos s' CHR ''G'' = find_pos ?g CHR ''G''
     \<and> at_pos s' 0 0 = Some CHR ''G''
     \<and> at_pos s' 0 1 \<noteq> Some CHR ''G''
     \<and> (\<forall>i < k. tile_at s' (ahead CHR ''l'' 0 1 i) = Some CHR '' '')
     \<and> (if tile_at ?g (ahead CHR ''l'' 0 1 (Suc k)) = Some CHR ''o''
          then tile_at s' (ahead CHR ''l'' 0 1 k) = Some CHR '' ''
             \<and> tile_at s' (ahead CHR ''l'' 0 1 (Suc k)) = Some CHR ''_''
          else tile_at s' (ahead CHR ''l'' 0 1 k) = Some CHR ''w''
             \<and> tile_at s' (ahead CHR ''l'' 0 1 (Suc k)) = tile_at ?g (ahead CHR ''l'' 0 1 (Suc k)))
     \<and> (\<forall>p. (\<forall>i \<le> Suc k. p \<noteq> ahead CHR ''l'' 0 1 i) \<longrightarrow> tile_at s' p = tile_at ?g p)"
    by blast
  have t: "tile_at ?g (ahead CHR ''l'' 0 1 i) = at_pos ?g 0 (1 + int i)" for i
    by (simp add: tile_at_def ahead_def)
  have "k \<le> 3"
  proof (rule ccontr)
    assume "\<not> k \<le> 3"
    then have "1 \<le> (4::nat) \<and> 4 \<le> k" by simp
    with free have "\<exists>x. tile_at ?g (ahead CHR ''l'' 0 1 4) = Some x \<and> x \<in> set '' _.x|-+''"
      by blast
    then show False by (simp add: t at_pos_def inside_def)
  qed
  moreover have "\<not> k < 3"
  proof
    assume "k < 3"
    then consider "k = 0" | "k = 1" | "k = 2" by linarith
    then show False
      using stop by cases (simp_all add: t at_pos_def inside_def)
  qed
  ultimately have k: "k = 3" by simp
  from 7 free stop rest k show ?thesis by blast
qed

section \<open>The validator\<close>

lemma scan_char_goat:
  "goat_count (scan_char i j c st) = goat_count st + (if c \<in> set ''G@Y'' then 1 else 0)"
  by (simp add: scan_char_def Let_def)

lemma scan_char_finish:
  "finish_count (scan_char i j c st) = finish_count st + (if c \<in> set ''F'' then 1 else 0)"
  by (simp add: scan_char_def Let_def)

lemma scan_char_invalid:
  "invalid (scan_char i j c st) = (invalid st \<or> c \<notin> set valid_chars)"
  by (simp add: scan_char_def Let_def)

lemma scan_char_victory:
  "victory (scan_char i j c st) = (victory st \<or> c = CHR ''@'')"
  by (simp add: scan_char_def Let_def)

lemma scan_char_defeated:
  "defeated (scan_char i j c st) = (defeated st \<or> c = CHR ''Y'')"
  by (simp add: scan_char_def Let_def)

lemma scan_char_log:
  "c \<in> set valid_chars \<Longrightarrow> log (scan_char i j c st) = log st"
  by (simp add: scan_char_def Let_def)

lemma scan_row_fields:
  "goat_count (fold (\<lambda>(j, c). scan_char i j c) (enumerate n l) st)
     = goat_count st + length (filter (\<lambda>c. c \<in> set ''G@Y'') l)"
  "finish_count (fold (\<lambda>(j, c). scan_char i j c) (enumerate n l) st)
     = finish_count st + length (filter (\<lambda>c. c \<in> set ''F'') l)"
  "invalid (fold (\<lambda>(j, c). scan_char i j c) (enumerate n l) st)
     = (invalid st \<or> (\<exists>c \<in> set l. c \<notin> set valid_chars))"
  "victory (fold (\<lambda>(j, c). scan_char i j c) (enumerate n l) st)
     = (victory st \<or> CHR ''@'' \<in> set l)"
  "defeated (fold (\<lambda>(j, c). scan_char i j c) (enumerate n l) st)
     = (defeated st \<or> CHR ''Y'' \<in> set l)"
proof (induction l arbitrary: n st)
  case Nil
  { case 1 show ?case by simp }
  { case 2 show ?case by simp }
  { case 3 show ?case by simp }
  { case 4 show ?case by simp }
  { case 5 show ?case by simp }
next
  case (Cons a l)
  { case 1 show ?case by (simp add: Cons.IH(1) scan_char_goat) }
  { case 2 show ?case by (simp add: Cons.IH(2) scan_char_finish) }
  { case 3 show ?case by (auto simp: Cons.IH(3) scan_char_invalid) }
  { case 4 show ?case by (auto simp: Cons.IH(4) scan_char_victory) }
  { case 5 show ?case by (auto simp: Cons.IH(5) scan_char_defeated) }
qed

lemma scan_row_log:
  "\<forall>c \<in> set l. c \<in> set valid_chars \<Longrightarrow>
   log (fold (\<lambda>(j, c). scan_char i j c) (enumerate n l) st) = log st"
  by (induction l arbitrary: n st) (simp_all add: scan_char_log)

lemma scan_row_eqs:
  "goat_count (scan_row i l st) = goat_count st + length (filter (\<lambda>c. c \<in> set ''G@Y'') l)"
  "finish_count (scan_row i l st) = finish_count st + length (filter (\<lambda>c. c \<in> set ''F'') l)"
  "invalid (scan_row i l st) = (invalid st \<or> (\<exists>c \<in> set l. c \<notin> set valid_chars))"
  "victory (scan_row i l st) = (victory st \<or> CHR ''@'' \<in> set l)"
  "defeated (scan_row i l st) = (defeated st \<or> CHR ''Y'' \<in> set l)"
  unfolding scan_row_def by (rule scan_row_fields)+

lemma scan_row_log_eq:
  "\<forall>c \<in> set l. c \<in> set valid_chars \<Longrightarrow> log (scan_row i l st) = log st"
  unfolding scan_row_def by (rule scan_row_log)

lemma scan_grid_fields:
  "goat_count (fold (\<lambda>(i, l). scan_row i l) (enumerate n s) st)
     = goat_count st + length (filter (\<lambda>c. c \<in> set ''G@Y'') (concat s))"
  "finish_count (fold (\<lambda>(i, l). scan_row i l) (enumerate n s) st)
     = finish_count st + length (filter (\<lambda>c. c \<in> set ''F'') (concat s))"
  "invalid (fold (\<lambda>(i, l). scan_row i l) (enumerate n s) st)
     = (invalid st \<or> (\<exists>c \<in> set (concat s). c \<notin> set valid_chars))"
  "victory (fold (\<lambda>(i, l). scan_row i l) (enumerate n s) st)
     = (victory st \<or> CHR ''@'' \<in> set (concat s))"
  "defeated (fold (\<lambda>(i, l). scan_row i l) (enumerate n s) st)
     = (defeated st \<or> CHR ''Y'' \<in> set (concat s))"
proof (induction s arbitrary: n st)
  case Nil
  { case 1 show ?case by simp }
  { case 2 show ?case by simp }
  { case 3 show ?case by simp }
  { case 4 show ?case by simp }
  { case 5 show ?case by simp }
next
  case (Cons a s)
  { case 1 show ?case by (simp add: Cons.IH(1) scan_row_eqs(1)) }
  { case 2 show ?case by (simp add: Cons.IH(2) scan_row_eqs(2)) }
  { case 3 show ?case by (auto simp: Cons.IH(3) scan_row_eqs(3)) }
  { case 4 show ?case by (auto simp: Cons.IH(4) scan_row_eqs(4)) }
  { case 5 show ?case by (auto simp: Cons.IH(5) scan_row_eqs(5)) }
qed

lemma scan_grid_log:
  "\<forall>c \<in> set (concat s). c \<in> set valid_chars \<Longrightarrow>
   log (fold (\<lambda>(i, l). scan_row i l) (enumerate n s) st) = log st"
  by (induction s arbitrary: n st) (simp_all add: scan_row_log_eq)

lemma scan_grid_init:
  "goat_count (scan_grid s scan_init) = ram_count s"
  "finish_count (scan_grid s scan_init) = count_tiles s ''F''"
  "invalid (scan_grid s scan_init) = (\<not> all_valid s)"
  "victory (scan_grid s scan_init) = (CHR ''@'' \<in> set (concat s))"
  "defeated (scan_grid s scan_init) = (CHR ''Y'' \<in> set (concat s))"
  "all_valid s \<Longrightarrow> log (scan_grid s scan_init) = []"
  unfolding scan_grid_def scan_grid_fields
  by (simp_all add: scan_init_def ram_count_def count_tiles_def all_valid_def scan_grid_log)

lemma mismatch_None:
  "\<forall>l \<in> set s. length l = len \<Longrightarrow> find (\<lambda>(i, l). length l \<noteq> len) (enumerate n s) = None"
  by (induction s arbitrary: n) simp_all

lemma mismatch_Some:
  "\<exists>l \<in> set s. length l \<noteq> len \<Longrightarrow>
   \<exists>i < length s. length (s ! i) \<noteq> len \<and> (\<forall>k < i. length (s ! k) = len)
     \<and> find (\<lambda>(i, l). length l \<noteq> len) (enumerate n s) = Some (n + i, s ! i)"
proof (induction s arbitrary: n)
  case Nil
  then show ?case by simp
next
  case (Cons a s)
  show ?case
  proof (cases "length a \<noteq> len")
    case True
    then have "0 < length (a # s) \<and> length ((a # s) ! 0) \<noteq> len \<and> (\<forall>k < 0. length ((a # s) ! k) = len)
      \<and> find (\<lambda>(i, l). length l \<noteq> len) (enumerate n (a # s)) = Some (n + 0, (a # s) ! 0)"
      by simp
    then show ?thesis by blast
  next
    case False
    then have "\<exists>l \<in> set s. length l \<noteq> len" using Cons.prems by simp
    from Cons.IH[OF this, of "Suc n"] obtain i where i: "i < length s" "length (s ! i) \<noteq> len"
      "\<forall>k < i. length (s ! k) = len"
      "find (\<lambda>(i, l). length l \<noteq> len) (enumerate (Suc n) s) = Some (Suc n + i, s ! i)"
      by blast
    have "\<forall>k < Suc i. length ((a # s) ! k) = len"
      using False i(3) by (simp add: nth_Cons split: nat.split)
    then have "Suc i < length (a # s) \<and> length ((a # s) ! Suc i) \<noteq> len
      \<and> (\<forall>k < Suc i. length ((a # s) ! k) = len)
      \<and> find (\<lambda>(i, l). length l \<noteq> len) (enumerate n (a # s)) = Some (n + Suc i, (a # s) ! Suc i)"
      using False i by simp
    then show ?thesis by blast
  qed
qed

lemma validate_state_unequal:
  assumes "s \<noteq> []" "\<not> rectangular s"
  shows "\<exists>i < length s. length (s ! i) \<noteq> length (hd s) \<and> (\<forall>k < i. length (s ! k) = length (hd s))
     \<and> validate_state s = Some ([LineLength i (length (s ! i)) (length (hd s)), SameLengthHint], Invalid)"
proof -
  obtain l0 ls where s: "s = l0 # ls" using assms(1) by (cases s) auto
  have "\<exists>l \<in> set s. length l \<noteq> length (hd s)" using assms(2) by (auto simp: rectangular_def)
  from mismatch_Some[OF this, of 0] obtain i where i: "i < length s" "length (s ! i) \<noteq> length (hd s)"
    "\<forall>k < i. length (s ! k) = length (hd s)"
    "find (\<lambda>(i, l). length l \<noteq> length (hd s)) (enumerate 0 s) = Some (i, s ! i)"
    by auto
  have "validate_state s = Some ([LineLength i (length (s ! i)) (length (hd s)), SameLengthHint], Invalid)"
    using i(4) unfolding s by (simp add: validate_state_def)
  with i show ?thesis by blast
qed

lemma validate_state_equal:
  assumes "s \<noteq> []" "rectangular s"
  shows "validate_state s =
     (let st = scan_grid s scan_init
      in if invalid st then Some (log st, Invalid)
         else if finish_count st = 0 then Some (log st @ [NoFinish, FinishHint], Invalid)
         else if goat_count st \<noteq> 1
           then Some (log st @ [GoatCount (goat_count st), GoatHint], Invalid)
         else if victory st then Some (log st, Victory)
         else if defeated st then Some (log st, Defeated)
         else Some (log st, Unfinished))"
proof -
  obtain l0 ls where s: "s = l0 # ls" using assms(1) by (cases s) auto
  have "\<forall>l \<in> set s. length l = length (hd s)" using assms(2) by (simp add: rectangular_def)
  from mismatch_None[OF this, of 0]
  have "find (\<lambda>(i, l). length l \<noteq> length l0) (enumerate 0 (l0 # ls)) = None"
    unfolding s by simp
  then show ?thesis unfolding s validate_state_def by (simp del: find.simps enumerate_simps)
qed

text \<open>
  Claim C8 as stated: a state with rows of equal length, one finish flag and exactly one
  ram tile would be valid, with the status of that ram. This one has a symbol outside
  \<^verbatim>\<open>_valid_chars\<close> and is invalid.
\<close>

theorem validate_state_counterexample:
  "map length [''GF?''] = [3] \<and> count_tiles [''GF?''] ''F'' = 1 \<and> ram_count [''GF?''] = 1
   \<and> find_pos [''GF?''] CHR ''G'' = [(0, 0)]
   \<and> validate_state [''GF?''] = Some ([InvalidChar CHR ''?'' 0 2, ValidCharsHint], Invalid)"
  by code_simp

text \<open>
  Claim C8, amended: on a state with at least one row, \<^verbatim>\<open>validate_state\<close> answers
  \<^verbatim>\<open>_invalid\<close> when the rows have unequal length (the message gives the first row
  that differs, its length and the length of row 0), when a symbol is outside
  \<^verbatim>\<open>_valid_chars\<close>, when there is no finish flag, and when the number of ram tiles is
  not one (the message gives the number, once the earlier checks have passed).
  Otherwise the status is \<^verbatim>\<open>_victory\<close> if the ram tile is \<^verbatim>\<open>@\<close>, \<^verbatim>\<open>_defeated\<close> if it is
  \<^verbatim>\<open>Y\<close>, else \<^verbatim>\<open>_unfinished\<close>, and nothing is printed.
\<close>

theorem validate_state_cases:
  assumes "s \<noteq> []"
  shows "(\<not> rectangular s \<longrightarrow>
       (\<exists>i < length s. length (s ! i) \<noteq> length (hd s) \<and> (\<forall>k < i. length (s ! k) = length (hd s))
          \<and> validate_state s
              = Some ([LineLength i (length (s ! i)) (length (hd s)), SameLengthHint], Invalid)))
   \<and> (rectangular s \<and> \<not> all_valid s \<longrightarrow> (\<exists>ms. validate_state s = Some (ms, Invalid)))
   \<and> (rectangular s \<and> all_valid s \<and> count_tiles s ''F'' = 0 \<longrightarrow>
        validate_state s = Some ([NoFinish, FinishHint], Invalid))
   \<and> (rectangular s \<and> all_valid s \<and> count_tiles s ''F'' \<noteq> 0 \<and> ram_count s \<noteq> 1 \<longrightarrow>
        validate_state s = Some ([GoatCount (ram_count s), GoatHint], Invalid))
   \<and> (rectangular s \<and> all_valid s \<and> count_tiles s ''F'' \<noteq> 0 \<and> ram_count s = 1 \<longrightarrow>
        validate_state s
          = Some ([], if CHR ''@'' \<in> set (concat s) then Victory
                      else if CHR ''Y'' \<in> set (concat s) then Defeated else Unfinished))
   \<and> (\<not> rectangular s \<or> \<not> all_valid s \<or> count_tiles s ''F'' = 0 \<or> ram_count s \<noteq> 1 \<longrightarrow>
        (\<exists>ms. validate_state s = Some (ms, Invalid)))"
proof (cases "rectangular s")
  case False
  from validate_state_unequal[OF assms False] False show ?thesis by blast
next
  case True
  note eq = validate_state_equal[OF assms True]
  show ?thesis
  proof (cases "all_valid s")
    case False
    then have "validate_state s = Some (log (scan_grid s scan_init), Invalid)"
      unfolding eq by (simp add: Let_def scan_grid_init(3))
    with True False show ?thesis by simp
  next
    case True
    have "validate_state s =
       (if count_tiles s ''F'' = 0 then Some ([NoFinish, FinishHint], Invalid)
        else if ram_count s \<noteq> 1 then Some ([GoatCount (ram_count s), GoatHint], Invalid)
        else if CHR ''@'' \<in> set (concat s) then Some ([], Victory)
        else if CHR ''Y'' \<in> set (concat s) then Some ([], Defeated)
        else Some ([], Unfinished))"
      unfolding eq using True by (simp add: Let_def scan_grid_init)
    with True \<open>rectangular s\<close> show ?thesis by simp
  qed
qed

theorem validate_state_cases_witness:
  "validate_state [''GF'', ''G''] = Some ([LineLength 1 1 2, SameLengthHint], Invalid)
   \<and> validate_state [''G  ''] = Some ([NoFinish, FinishHint], Invalid)
   \<and> validate_state [''GG F''] = Some ([GoatCount 2, GoatHint], Invalid)
   \<and> validate_state [''.@F''] = Some ([], Victory)"
proof -
  have 1: "validate_state [''GF'', ''G''] = Some ([LineLength 1 1 2, SameLengthHint], Invalid)"
    by code_simp
  have 2: "validate_state [''G  ''] = Some ([NoFinish, FinishHint], Invalid)"
    by code_simp
  have ne: "[''GG F''] \<noteq> []" by simp
  have r: "rectangular [''GG F'']" by (simp add: rectangular_def)
  have v: "all_valid [''GG F'']" by (simp add: all_valid_def valid_chars_def)
  have f: "count_tiles [''GG F''] ''F'' \<noteq> 0" by (simp add: count_tiles_def)
  have g: "ram_count [''GG F''] = 2" by (simp add: ram_count_def count_tiles_def)
  have 3: "validate_state [''GG F''] = Some ([GoatCount 2, GoatHint], Invalid)"
    using validate_state_cases[OF ne] r v f g by simp
  have ne': "[''.@F''] \<noteq> []" by simp
  have r': "rectangular [''.@F'']" by (simp add: rectangular_def)
  have v': "all_valid [''.@F'']" by (simp add: all_valid_def valid_chars_def)
  have f': "count_tiles [''.@F''] ''F'' \<noteq> 0" by (simp add: count_tiles_def)
  have g': "ram_count [''.@F''] = 1" by (simp add: ram_count_def count_tiles_def)
  have 4: "validate_state [''.@F''] = Some ([], Victory)"
    using validate_state_cases[OF ne'] r' v' f' g' by simp
  from 1 2 3 4 show ?thesis by blast
qed

end
